theory Spec2Isabelle
  imports Complex_Main
begin

section \<open>Python values and failures\<close>

text \<open>
  The notebook's functions work on Python floats. They are modelled over the real
  numbers: rounding, overflow and underflow of IEEE arithmetic are not part of this
  model, so a result here is the exact value of the expression the source evaluates in
  doubles. What is part of the model is every exception the arithmetic of the source
  raises on real inputs: \<open>math.log\<close> and \<open>math.sqrt\<close> outside their domain
  (ValueError), a division of built-in Python numbers by zero (ZeroDivisionError) and an
  index into an empty list (IndexError). A division by zero with a \<open>numpy.float64\<close>
  operand raises nothing: it gives \<open>inf\<close> or \<open>nan\<close> with a warning. Such a value
  is not a real number and the model does not follow the source beyond it: the outcome
  is \<open>NonFinite\<close> (\<open>NanResult\<close> where the quotient is \<open>0.0 / 0\<close>, which is
  \<open>nan\<close>).
\<close>

datatype py_error = ValueError | ZeroDivisionError | IndexError | NanResult | NonFinite

text \<open>
  A number passed to the Black-Scholes-Merton functions is a built-in Python number
  (\<open>float\<close>, \<open>int\<close>) or a \<open>numpy.float64\<close>, as the values read from a pandas table
  are. The result of an arithmetic operation is a \<open>numpy.float64\<close> as soon as one
  operand is.
\<close>

datatype py_kind = Builtin | Numpy

definition kind_join :: "py_kind \<Rightarrow> py_kind \<Rightarrow> py_kind" where
  "kind_join a b = (if a = Numpy \<or> b = Numpy then Numpy else Builtin)"

text \<open>\<open>a / b\<close> for built-in Python numbers.\<close>

definition py_div :: "real \<Rightarrow> real \<Rightarrow> py_error + real" where
  "py_div a b = (if b = 0 then Inl ZeroDivisionError else Inr (a / b))"

text \<open>\<open>a / b\<close> when \<open>a\<close> or \<open>b\<close> is a \<open>numpy.float64\<close>.\<close>

definition np_div :: "real \<Rightarrow> real \<Rightarrow> py_error + real" where
  "np_div a b = (if b = 0 then Inl NonFinite else Inr (a / b))"

text \<open>\<open>a / b\<close>, the kind of the operation given.\<close>

definition div_of :: "py_kind \<Rightarrow> real \<Rightarrow> real \<Rightarrow> py_error + real" where
  "div_of k a b = (case k of Builtin \<Rightarrow> py_div a b | Numpy \<Rightarrow> np_div a b)"

definition py_log :: "real \<Rightarrow> py_error + real" where
  "py_log x = (if x \<le> 0 then Inl ValueError else Inr (ln x))"

definition py_sqrt :: "real \<Rightarrow> py_error + real" where
  "py_sqrt x = (if x < 0 then Inl ValueError else Inr (sqrt x))"

text \<open>\<open>range(n)\<close>: the integers \<open>0, ..., n - 1\<close>, empty when \<open>n \<le> 0\<close>.\<close>

definition py_range :: "int \<Rightarrow> int list" where
  "py_range n = [0..n - 1]"

section \<open>The standard normal distribution\<close>

text \<open>
  \<open>scipy.stats.norm.cdf(x, 0.0, 1.0)\<close> is the cumulative distribution function of the
  standard normal distribution, \<open>(1 + erf (x / sqrt 2)) / 2\<close>. The error function is
  given by its Maclaurin series
  \<open>erf x = 2 / sqrt pi * (\<Sum>n. (-1)^n * x^(2n+1) / (n! * (2n+1)))\<close>,
  which converges for every real \<open>x\<close>.
\<close>

definition erf_coeff :: "nat \<Rightarrow> real" where
  "erf_coeff n = (- 1) ^ n / (fact n * (2 * real n + 1))"

definition erf_series :: "real \<Rightarrow> real" where
  "erf_series x = (\<Sum>n. erf_coeff n * x ^ (2 * n + 1))"

definition erf :: "real \<Rightarrow> real" where
  "erf x = 2 / sqrt pi * erf_series x"

definition norm_cdf :: "real \<Rightarrow> real" where
  "norm_cdf x = (1 + erf (x / sqrt 2)) / 2"

text \<open>The density of the standard normal distribution (\<open>phi\<close> in the specification).\<close>

definition norm_pdf :: "real \<Rightarrow> real" where
  "norm_pdf x = exp (- x\<^sup>2 / 2) / sqrt (2 * pi)"

section \<open>Black-Scholes-Merton functions\<close>

text \<open>
  The kinds of the arguments \<open>K\<close>, \<open>T\<close>, \<open>r\<close> and \<open>sigma\<close> of a call. The
  argument \<open>S0\<close> is converted first (\<open>S0 = float(S0)\<close>) and is a built-in float
  from there on.
\<close>

record bsm_kinds =
  kind_K :: py_kind
  kind_T :: py_kind
  kind_r :: py_kind
  kind_sigma :: py_kind

text \<open>A call with built-in numbers only, and one with NumPy scalars only.\<close>

definition all_builtin :: bsm_kinds where
  "all_builtin = \<lparr>kind_K = Builtin, kind_T = Builtin, kind_r = Builtin, kind_sigma = Builtin\<rparr>"


text \<open>
  The kind of numerator and denominator of \<open>d1\<close> and \<open>d2\<close> taken together:
  \<open>log\<close> and \<open>sqrt\<close> are those of \<open>math\<close> and return built-in floats, so the
  quotient is NumPy's exactly when \<open>r\<close>, \<open>sigma\<close> or \<open>T\<close> is a \<open>numpy.float64\<close>.
\<close>

definition d_kind :: "bsm_kinds \<Rightarrow> py_kind" where
  "d_kind ks = kind_join (kind_r ks) (kind_join (kind_sigma ks) (kind_T ks))"

text \<open>
  The expression bound to \<open>d1\<close> in \<open>bsm_call_value\<close> and \<open>bsm_vega\<close>:
  \<^verbatim>\<open>(log(S0 / K) + (r + 0.5 * sigma ** 2) * T) / (sigma * sqrt(T))\<close>
  evaluated left to right: the quotient, its logarithm, the square root, the division.
\<close>

definition bsm_d1 :: "bsm_kinds \<Rightarrow> real \<Rightarrow> real \<Rightarrow> real \<Rightarrow> real \<Rightarrow> real \<Rightarrow> py_error + real" where
  "bsm_d1 ks S0 K T r sigma =
     (case div_of (kind_K ks) S0 K of Inl e \<Rightarrow> Inl e | Inr q \<Rightarrow>
     (case py_log q of Inl e \<Rightarrow> Inl e | Inr l \<Rightarrow>
     (case py_sqrt T of Inl e \<Rightarrow> Inl e | Inr s \<Rightarrow>
        div_of (d_kind ks) (l + (r + 0.5 * sigma\<^sup>2) * T) (sigma * s))))"

text \<open>
  The expression bound to \<open>d2\<close> in \<open>bsm_call_value\<close>:
  \<^verbatim>\<open>(log(S0 / K) + (r - 0.5 * sigma ** 2) * T) / (sigma * sqrt(T))\<close>
\<close>

definition bsm_d2 :: "bsm_kinds \<Rightarrow> real \<Rightarrow> real \<Rightarrow> real \<Rightarrow> real \<Rightarrow> real \<Rightarrow> py_error + real" where
  "bsm_d2 ks S0 K T r sigma =
     (case div_of (kind_K ks) S0 K of Inl e \<Rightarrow> Inl e | Inr q \<Rightarrow>
     (case py_log q of Inl e \<Rightarrow> Inl e | Inr l \<Rightarrow>
     (case py_sqrt T of Inl e \<Rightarrow> Inl e | Inr s \<Rightarrow>
        div_of (d_kind ks) (l + (r - 0.5 * sigma\<^sup>2) * T) (sigma * s))))"

text \<open>
  \<^verbatim>\<open>value = (S0 * stats.norm.cdf(d1, 0.0, 1.0)
           - K * exp(-r * T) * stats.norm.cdf(d2, 0.0, 1.0))\<close>
  The result of \<open>stats.norm.cdf\<close> is a \<open>numpy.float64\<close>, and so is \<open>value\<close>.
\<close>

definition bsm_call_value ::
  "bsm_kinds \<Rightarrow> real \<Rightarrow> real \<Rightarrow> real \<Rightarrow> real \<Rightarrow> real \<Rightarrow> py_error + real" where
  "bsm_call_value ks S0 K T r sigma =
     (case bsm_d1 ks S0 K T r sigma of Inl e \<Rightarrow> Inl e | Inr d1 \<Rightarrow>
     (case bsm_d2 ks S0 K T r sigma of Inl e \<Rightarrow> Inl e | Inr d2 \<Rightarrow>
        Inr (S0 * norm_cdf d1 - K * exp (- r * T) * norm_cdf d2)))"

text \<open>
  \<^verbatim>\<open>vega = S0 * stats.norm.cdf(d1, 0.0, 1.0) * sqrt(T)\<close>
  The source calls \<open>cdf\<close> here, and so does the model. The result is a
  \<open>numpy.float64\<close>.
\<close>

definition bsm_vega ::
  "bsm_kinds \<Rightarrow> real \<Rightarrow> real \<Rightarrow> real \<Rightarrow> real \<Rightarrow> real \<Rightarrow> py_error + real" where
  "bsm_vega ks S0 K T r sigma =
     (case bsm_d1 ks S0 K T r sigma of Inl e \<Rightarrow> Inl e | Inr d1 \<Rightarrow>
     (case py_sqrt T of Inl e \<Rightarrow> Inl e | Inr s \<Rightarrow>
        Inr (S0 * norm_cdf d1 * s)))"

text \<open>
  The closed formula of the specification for the call price,
  \<open>S0 * N(d1) - K * exp (- r * T) * N(d2)\<close>, without the failures of the code.
\<close>

definition bsm_formula :: "real \<Rightarrow> real \<Rightarrow> real \<Rightarrow> real \<Rightarrow> real \<Rightarrow> real" where
  "bsm_formula S0 K T r sigma =
     S0 * norm_cdf ((ln (S0 / K) + (r + sigma\<^sup>2 / 2) * T) / (sigma * sqrt T))
     - K * exp (- r * T) * norm_cdf ((ln (S0 / K) + (r - sigma\<^sup>2 / 2) * T) / (sigma * sqrt T))"

text \<open>
  Vega as the specification words it, \<open>S0 * phi(d1) * sqrt(T)\<close> with \<open>phi\<close> the
  standard normal density.
\<close>

definition vega_formula :: "real \<Rightarrow> real \<Rightarrow> real \<Rightarrow> real \<Rightarrow> real \<Rightarrow> real" where
  "vega_formula S0 K T r sigma =
     S0 * norm_pdf ((ln (S0 / K) + (r + sigma\<^sup>2 / 2) * T) / (sigma * sqrt T)) * sqrt T"

text \<open>
  The body of the loop of \<open>bsm_call_imp_vol\<close>:
  \<^verbatim>\<open>sigma_est -= ((bsm_call_value(S0, K, T, r, sigma_est) - C0)
                / bsm_vega(S0, K, T, r, sigma_est))\<close>
  Both results are \<open>numpy.float64\<close> values, so the division is NumPy's, and so is the
  new \<open>sigma_est\<close>.
\<close>

definition imp_vol_body ::
  "bsm_kinds \<Rightarrow> real \<Rightarrow> real \<Rightarrow> real \<Rightarrow> real \<Rightarrow> real \<Rightarrow> real \<Rightarrow> py_error + real" where
  "imp_vol_body ks S0 K T r C0 sigma_est =
     (case bsm_call_value ks S0 K T r sigma_est of Inl e \<Rightarrow> Inl e | Inr v \<Rightarrow>
     (case bsm_vega ks S0 K T r sigma_est of Inl e \<Rightarrow> Inl e | Inr g \<Rightarrow>
     (case np_div (v - C0) g of Inl e \<Rightarrow> Inl e | Inr q \<Rightarrow>
        Inr (sigma_est - q))))"

text \<open>
  \<^verbatim>\<open>for i in range(it): ...\<close> over the remaining indices, the first raise ends it.
  After an update \<open>sigma_est\<close> is a \<open>numpy.float64\<close>.
\<close>

fun imp_vol_loop ::
  "bsm_kinds \<Rightarrow> real \<Rightarrow> real \<Rightarrow> real \<Rightarrow> real \<Rightarrow> real \<Rightarrow> int list \<Rightarrow> real \<Rightarrow> py_error + real" where
  "imp_vol_loop ks S0 K T r C0 [] sigma_est = Inr sigma_est"
| "imp_vol_loop ks S0 K T r C0 (i # is) sigma_est =
     (case imp_vol_body ks S0 K T r C0 sigma_est of Inl e \<Rightarrow> Inl e
      | Inr sigma_est' \<Rightarrow>
          imp_vol_loop (ks\<lparr>kind_sigma := Numpy\<rparr>) S0 K T r C0 is sigma_est')"

text \<open>
  The function's arguments with their kinds; \<open>ks\<close> holds the kind of the initial
  \<open>sigma_est\<close> as \<open>kind_sigma\<close>.
\<close>

definition bsm_call_imp_vol ::
  "bsm_kinds \<Rightarrow> real \<Rightarrow> real \<Rightarrow> real \<Rightarrow> real \<Rightarrow> real \<Rightarrow> real \<Rightarrow> int \<Rightarrow> py_error + real" where
  "bsm_call_imp_vol ks S0 K T r C0 sigma_est it =
     imp_vol_loop ks S0 K T r C0 (py_range it) sigma_est"

text \<open>
  The Newton-Raphson sequence as the specification words it: \<open>sigma_0\<close> is the
  initial guess and \<open>sigma_{n+1} = sigma_n - (Pricer(sigma_n) - C*) / Vega(sigma_n)\<close>,
  with the Pricer and the Vega of the specification.
\<close>

fun newton_seq :: "real \<Rightarrow> real \<Rightarrow> real \<Rightarrow> real \<Rightarrow> real \<Rightarrow> real \<Rightarrow> nat \<Rightarrow> real" where
  "newton_seq S0 K T r C0 sigma0 0 = sigma0"
| "newton_seq S0 K T r C0 sigma0 (Suc n) =
     newton_seq S0 K T r C0 sigma0 n
       - (bsm_formula S0 K T r (newton_seq S0 K T r C0 sigma0 n) - C0)
           / vega_formula S0 K T r (newton_seq S0 K T r C0 sigma0 n)"

text \<open>
  The sequence of the values of \<open>sigma_est\<close> in the source: \<open>n\<close> executions of the
  loop body, one after the other.
\<close>

fun imp_vol_seq ::
  "bsm_kinds \<Rightarrow> real \<Rightarrow> real \<Rightarrow> real \<Rightarrow> real \<Rightarrow> real \<Rightarrow> real \<Rightarrow> nat \<Rightarrow> py_error + real" where
  "imp_vol_seq ks S0 K T r C0 sigma0 0 = Inr sigma0"
| "imp_vol_seq ks S0 K T r C0 sigma0 (Suc n) =
     (case imp_vol_seq ks S0 K T r C0 sigma0 n of Inl e \<Rightarrow> Inl e
      | Inr s \<Rightarrow>
          imp_vol_body (if n = 0 then ks else ks\<lparr>kind_sigma := Numpy\<rparr>) S0 K T r C0 s)"

section \<open>Monte Carlo valuation\<close>

text \<open>
  The three scripts read their parameters from module-level assignments; here they are
  the arguments of a function. \<open>M\<close> and \<open>I\<close> are Python integers. The seeded
  pseudorandom generator is a fixed sequence of draws together with the number of draws
  already taken; every call takes the next ones in order.
\<close>

type_synonym rng = "(nat \<Rightarrow> real) \<times> nat"

text \<open>\<open>gauss(0.0, 1.0)\<close>: the next draw.\<close>

definition gauss :: "rng \<Rightarrow> real \<times> rng" where
  "gauss g = (fst g (snd g), (fst g, Suc (snd g)))"

text \<open>\<open>standard_normal(n)\<close>: the next \<open>n\<close> draws, as a vector.\<close>

definition standard_normal :: "nat \<Rightarrow> rng \<Rightarrow> real list \<times> rng" where
  "standard_normal n g = (map (\<lambda>k. fst g (snd g + k)) [0..<n], (fst g, snd g + n))"

text \<open>\<open>standard_normal((m, n))\<close>: \<open>m\<close> rows of \<open>n\<close> draws, filled row by row.\<close>

fun standard_normal2 :: "nat \<Rightarrow> nat \<Rightarrow> rng \<Rightarrow> real list list \<times> rng" where
  "standard_normal2 0 n g = ([], g)"
| "standard_normal2 (Suc m) n g =
     (case standard_normal n g of (row, g') \<Rightarrow>
      case standard_normal2 m n g' of (rows, g'') \<Rightarrow> (row # rows, g''))"

text \<open>\<open>xs[i]\<close>: a negative index counts from the end, an index out of range raises.\<close>

definition py_get :: "'a list \<Rightarrow> int \<Rightarrow> py_error + 'a" where
  "py_get xs i =
     (if 0 \<le> i \<and> i < int (length xs) then Inr (xs ! nat i)
      else if i < 0 \<and> - int (length xs) \<le> i then Inr (xs ! nat (int (length xs) + i))
      else Inl IndexError)"

text \<open>\<open>xs[i] = v\<close> for an index \<open>i \<ge> 0\<close>.\<close>

definition py_set :: "'a list \<Rightarrow> int \<Rightarrow> 'a \<Rightarrow> py_error + 'a list" where
  "py_set xs i v =
     (if 0 \<le> i \<and> i < int (length xs) then Inr (xs[nat i := v]) else Inl IndexError)"

text \<open>\<open>range(a, b)\<close>.\<close>

definition py_range2 :: "int \<Rightarrow> int \<Rightarrow> int list" where
  "py_range2 a b = [a..b - 1]"

subsection \<open>mcs_pure_python.py\<close>

text \<open>
  The inner loop \<^verbatim>\<open>for t in range(M + 1)\<close>, over the remaining values of \<open>t\<close>:
  \<^verbatim>\<open>
  if t == 0:
      path.append(S0)
  else:
      z = gauss(0.0, 1.0)
      St = path[t - 1] * exp((r - 0.5 * sigma ** 2) * dt + sigma * sqrt(dt) * z)
      path.append(St)
  \<close>
\<close>

fun path_loop ::
  "real \<Rightarrow> real \<Rightarrow> real \<Rightarrow> real \<Rightarrow> int list \<Rightarrow> real list \<Rightarrow> rng \<Rightarrow> py_error + (real list \<times> rng)" where
  "path_loop S0 r sigma dt [] path g = Inr (path, g)"
| "path_loop S0 r sigma dt (t # ts) path g =
     (if t = 0 then path_loop S0 r sigma dt ts (path @ [S0]) g
      else (case gauss g of (z, g') \<Rightarrow>
        (case py_get path (t - 1) of Inl e \<Rightarrow> Inl e | Inr prev \<Rightarrow>
        (case py_sqrt dt of Inl e \<Rightarrow> Inl e | Inr sd \<Rightarrow>
           path_loop S0 r sigma dt ts
             (path @ [prev * exp ((r - 0.5 * sigma\<^sup>2) * dt + sigma * sd * z)]) g'))))"

text \<open>The outer loop \<^verbatim>\<open>for i in range(I)\<close>: a fresh path, then \<open>S.append(path)\<close>.\<close>

fun paths_loop ::
  "real \<Rightarrow> real \<Rightarrow> real \<Rightarrow> real \<Rightarrow> int \<Rightarrow> int list \<Rightarrow> real list list \<Rightarrow> rng
     \<Rightarrow> py_error + (real list list \<times> rng)" where
  "paths_loop S0 r sigma dt M [] S g = Inr (S, g)"
| "paths_loop S0 r sigma dt M (i # is) S g =
     (case path_loop S0 r sigma dt (py_range (M + 1)) [] g of Inl e \<Rightarrow> Inl e
      | Inr (path, g') \<Rightarrow> paths_loop S0 r sigma dt M is (S @ [path]) g')"

text \<open>The list \<open>S\<close> of paths the script has built when both loops are done.\<close>

definition mcs_pure_python_paths ::
  "real \<Rightarrow> real \<Rightarrow> real \<Rightarrow> real \<Rightarrow> int \<Rightarrow> int \<Rightarrow> (nat \<Rightarrow> real) \<Rightarrow> py_error + real list list" where
  "mcs_pure_python_paths S0 T r sigma M I z =
     (case py_div T (real_of_int M) of Inl e \<Rightarrow> Inl e | Inr dt \<Rightarrow>
     (case paths_loop S0 r sigma dt M (py_range I) [] (z, 0) of Inl e \<Rightarrow> Inl e
      | Inr (S, g) \<Rightarrow> Inr S))"

text \<open>\<^verbatim>\<open>[max(path[-1] - K, 0) for path in S]\<close>\<close>

fun payoffs :: "real \<Rightarrow> real list list \<Rightarrow> py_error + real list" where
  "payoffs K [] = Inr []"
| "payoffs K (path # S) =
     (case py_get path (- 1) of Inl e \<Rightarrow> Inl e | Inr sT \<Rightarrow>
     (case payoffs K S of Inl e \<Rightarrow> Inl e | Inr hs \<Rightarrow> Inr (max (sT - K) 0 # hs)))"

text \<open>\<^verbatim>\<open>C0 = exp(-r * T) * sum([max(path[-1] - K, 0) for path in S]) / I\<close>\<close>

definition mcs_pure_python ::
  "real \<Rightarrow> real \<Rightarrow> real \<Rightarrow> real \<Rightarrow> real \<Rightarrow> int \<Rightarrow> int \<Rightarrow> (nat \<Rightarrow> real) \<Rightarrow> py_error + real" where
  "mcs_pure_python S0 K T r sigma M I z =
     (case mcs_pure_python_paths S0 T r sigma M I z of Inl e \<Rightarrow> Inl e | Inr S \<Rightarrow>
     (case payoffs K S of Inl e \<Rightarrow> Inl e | Inr hs \<Rightarrow>
        py_div (exp (- r * T) * sum_list hs) (real_of_int I)))"

subsection \<open>mcs_vector_numpy.py\<close>

text \<open>
  A two-dimensional array is the list of its rows. The loop
  \<^verbatim>\<open>for t in range(1, M + 1)\<close>:
  \<^verbatim>\<open>
  z = np.random.standard_normal(I)
  S[t] = S[t - 1] * np.exp((r - 0.5 * sigma ** 2) * dt + sigma * math.sqrt(dt) * z)
  \<close>
\<close>

fun vector_loop ::
  "real \<Rightarrow> real \<Rightarrow> real \<Rightarrow> nat \<Rightarrow> int list \<Rightarrow> real list list \<Rightarrow> rng
     \<Rightarrow> py_error + (real list list \<times> rng)" where
  "vector_loop r sigma dt I [] S g = Inr (S, g)"
| "vector_loop r sigma dt I (t # ts) S g =
     (case standard_normal I g of (z, g') \<Rightarrow>
     (case py_get S (t - 1) of Inl e \<Rightarrow> Inl e | Inr prev \<Rightarrow>
     (case py_sqrt dt of Inl e \<Rightarrow> Inl e | Inr sd \<Rightarrow>
     (case py_set S t
             (map2 (\<lambda>s zi. s * exp ((r - 0.5 * sigma\<^sup>2) * dt + sigma * sd * zi)) prev z)
      of Inl e \<Rightarrow> Inl e | Inr S' \<Rightarrow> vector_loop r sigma dt I ts S' g'))))"

text \<open>
  \<^verbatim>\<open>np.sum(np.maximum(row - K, 0))\<close>, multiplied by the discount factor and divided by
  \<open>I\<close>; the quotient of a NumPy scalar by zero is \<open>nan\<close>.
\<close>

definition np_estimator :: "real \<Rightarrow> real \<Rightarrow> real \<Rightarrow> int \<Rightarrow> real list \<Rightarrow> py_error + real" where
  "np_estimator K T r I row =
     (if I = 0 then Inl NanResult
      else Inr (exp (- r * T) * sum_list (map (\<lambda>s. max (s - K) 0) row) / real_of_int I))"

text \<open>
  \<^verbatim>\<open>
  S = np.zeros((M + 1, I))
  S[0] = S0
  for t in range(1, M + 1): ...
  C0 = math.exp(-r * T) * np.sum(np.maximum(S[-1] - K, 0)) / I
  \<close>
  \<open>np.zeros\<close> raises ValueError on a negative dimension.
\<close>

definition mcs_vector_numpy ::
  "real \<Rightarrow> real \<Rightarrow> real \<Rightarrow> real \<Rightarrow> real \<Rightarrow> int \<Rightarrow> int \<Rightarrow> (nat \<Rightarrow> real) \<Rightarrow> py_error + real" where
  "mcs_vector_numpy S0 K T r sigma M I z =
     (case py_div T (real_of_int M) of Inl e \<Rightarrow> Inl e | Inr dt \<Rightarrow>
      if M + 1 < 0 \<or> I < 0 then Inl ValueError
      else
     (case py_set (replicate (nat (M + 1)) (replicate (nat I) 0)) 0 (replicate (nat I) S0)
      of Inl e \<Rightarrow> Inl e | Inr S1 \<Rightarrow>
     (case vector_loop r sigma dt (nat I) (py_range2 1 (M + 1)) S1 (z, 0)
      of Inl e \<Rightarrow> Inl e | Inr (S, g) \<Rightarrow>
     (case py_get S (- 1) of Inl e \<Rightarrow> Inl e | Inr row \<Rightarrow> np_estimator K T r I row))))"

subsection \<open>mcs_full_vector_numpy.py\<close>

text \<open>\<open>cumsum(a, axis=0)\<close>: the running sums down each column, from the sum so far.\<close>

fun cumsum_axis0 :: "real list \<Rightarrow> real list list \<Rightarrow> real list list" where
  "cumsum_axis0 acc [] = []"
| "cumsum_axis0 acc (row # rows) =
     map2 (+) acc row # cumsum_axis0 (map2 (+) acc row) rows"

text \<open>
  \<^verbatim>\<open>
  S = S0 * exp(cumsum((r - 0.5 * sigma ** 2) * dt
                      + sigma * math.sqrt(dt)
                      * random.standard_normal((M + 1, I)), axis=0))
  S[0] = S0
  C0 = math.exp(-r * T) * sum(maximum(S[-1] - K, 0)) / I
  \<close>
  with \<open>exp\<close>, \<open>cumsum\<close>, \<open>sum\<close>, \<open>maximum\<close> and \<open>random\<close> those of NumPy
  (\<^verbatim>\<open>from numpy import *\<close>).
\<close>

definition mcs_full_vector_numpy ::
  "real \<Rightarrow> real \<Rightarrow> real \<Rightarrow> real \<Rightarrow> real \<Rightarrow> int \<Rightarrow> int \<Rightarrow> (nat \<Rightarrow> real) \<Rightarrow> py_error + real" where
  "mcs_full_vector_numpy S0 K T r sigma M I z =
     (case py_div T (real_of_int M) of Inl e \<Rightarrow> Inl e | Inr dt \<Rightarrow>
     (case py_sqrt dt of Inl e \<Rightarrow> Inl e | Inr sd \<Rightarrow>
      if M + 1 < 0 \<or> I < 0 then Inl ValueError
      else
     (case standard_normal2 (nat (M + 1)) (nat I) (z, 0) of (Z, g) \<Rightarrow>
     (case py_set
             (map (map (\<lambda>c. S0 * exp c))
                (cumsum_axis0 (replicate (nat I) 0)
                   (map (map (\<lambda>zi. (r - 0.5 * sigma\<^sup>2) * dt + sigma * sd * zi)) Z)))
             0 (replicate (nat I) S0)
      of Inl e \<Rightarrow> Inl e | Inr S \<Rightarrow>
     (case py_get S (- 1) of Inl e \<Rightarrow> Inl e | Inr row \<Rightarrow> np_estimator K T r I row)))))"

subsection \<open>The discretisation scheme of the specification\<close>

text \<open>
  The log-space Euler scheme as the specification words it: the level after \<open>t\<close> steps
  of length \<open>dt\<close>, the step \<open>k + 1\<close> driven by the draw \<open>zs k\<close>:
  \<open>S_t = S_{t - dt} * exp ((r - sigma\<^sup>2 / 2) * dt + sigma * sqrt dt * z)\<close>.
\<close>

fun euler_level :: "real \<Rightarrow> real \<Rightarrow> real \<Rightarrow> real \<Rightarrow> (nat \<Rightarrow> real) \<Rightarrow> nat \<Rightarrow> real" where
  "euler_level S0 r sigma dt zs 0 = S0"
| "euler_level S0 r sigma dt zs (Suc t) =
     euler_level S0 r sigma dt zs t * exp ((r - sigma\<^sup>2 / 2) * dt + sigma * sqrt dt * zs t)"

text \<open>
  Row \<open>t\<close> of the array of the NumPy scripts when the draws are taken row by row:
  the levels of the \<open>I\<close> paths after \<open>t\<close> steps, path \<open>i\<close> driven by the draws
  \<open>i, I + i, 2 * I + i, ...\<close> of the generator.
\<close>

definition euler_row :: "real \<Rightarrow> real \<Rightarrow> real \<Rightarrow> real \<Rightarrow> (nat \<Rightarrow> real) \<Rightarrow> nat \<Rightarrow> nat \<Rightarrow> real list" where
  "euler_row S0 r sigma dt z I t =
     map (\<lambda>i. euler_level S0 r sigma dt (\<lambda>k. z (k * I + i)) t) [0..<I]"

section \<open>Auxiliary functions for the analysis of the normal distribution\<close>

text \<open>
  The function \<open>cos_int m\<close> is the antiderivative of \<open>cos ^ m\<close> that vanishes at
  \<open>0\<close>, given by the reduction formula; \<open>wallis m\<close> is its value at \<open>pi / 2\<close>,
  the Wallis integral. They carry the proof that \<open>erf\<close> stays below \<open>1\<close> and
  tends to \<open>1\<close>.
\<close>

fun cos_int :: "nat \<Rightarrow> real \<Rightarrow> real" where
  "cos_int 0 x = x"
| "cos_int (Suc 0) x = sin x"
| "cos_int (Suc (Suc m)) x =
     cos x ^ Suc m * sin x / real (m + 2) + real (m + 1) / real (m + 2) * cos_int m x"

definition wallis :: "nat \<Rightarrow> real" where
  "wallis m = cos_int m (pi / 2)"

text \<open>
  The call price divided by the discounted strike, as a function of the log-moneyness
  \<open>x = ln (S0 / (K * exp (- r * T)))\<close> and of \<open>v = sigma * sqrt T\<close>.
\<close>

definition call_ratio :: "real \<Rightarrow> real \<Rightarrow> real" where
  "call_ratio v x = exp x * norm_cdf (x / v + v / 2) - norm_cdf (x / v - v / 2)"

section \<open>Elementary facts\<close>

lemma erf_0: "erf 0 = 0"
  by (simp add: erf_def erf_series_def)

lemma norm_cdf_0: "norm_cdf 0 = 1 / 2"
  by (simp add: norm_cdf_def erf_0)

lemma cos_ge_quadratic:
  fixes x :: real
  assumes x: "0 \<le> x"
  shows "1 - x\<^sup>2 / 2 \<le> cos x"
proof -
  have "cos 0 - (1 - 0\<^sup>2 / 2) \<le> cos x - (1 - x\<^sup>2 / 2)"
  proof (rule DERIV_nonneg_imp_nondecreasing[OF x])
    fix t :: real
    assume "0 \<le> t" "t \<le> x"
    have "((\<lambda>t. cos t - (1 - t\<^sup>2 / 2)) has_real_derivative (t - sin t)) (at t)"
      by (auto intro!: derivative_eq_intros)
    moreover have "0 \<le> t - sin t"
      using sin_x_le_x[OF \<open>0 \<le> t\<close>] by simp
    ultimately show "\<exists>y. ((\<lambda>t. cos t - (1 - t\<^sup>2 / 2)) has_real_derivative y) (at t) \<and> 0 \<le> y"
      by blast
  qed
  then show ?thesis by simp
qed

lemma pi_gt_two: "2 < pi"
proof (rule ccontr)
  assume "\<not> 2 < pi"
  then have "pi / 2 \<le> 1" by simp
  then have "cos 1 \<le> cos (pi / 2)"
    using pi_ge_two by (intro cos_monotone_0_pi_le) auto
  moreover have "1 / 2 \<le> cos (1::real)"
    using cos_ge_quadratic[of 1] by simp
  ultimately show False by simp
qed

lemma norm_pdf_0_less_half: "norm_pdf 0 < 1 / 2"
proof -
  have "sqrt 4 < sqrt (2 * pi)"
    using pi_gt_two by (intro real_sqrt_less_mono) simp
  then have "2 < sqrt (2 * pi)" by simp
  then have "1 / sqrt (2 * pi) < 1 / 2"
    by (simp add: field_simps)
  then show ?thesis by (simp add: norm_pdf_def)
qed

lemma div_of_nonzero: "b \<noteq> 0 \<Longrightarrow> div_of k a b = Inr (a / b)"
  by (simp add: div_of_def py_div_def np_div_def split: py_kind.splits)

lemma div_of_builtin_zero: "div_of Builtin a 0 = Inl ZeroDivisionError"
  by (simp add: div_of_def py_div_def)





lemma bsm_d1_d2_value:
  assumes "0 < S0" "0 < K" "0 < T" "sigma \<noteq> 0"
  shows "bsm_d1 ks S0 K T r sigma = Inr ((ln (S0 / K) + (r + sigma\<^sup>2 / 2) * T) / (sigma * sqrt T))"
    and "bsm_d2 ks S0 K T r sigma = Inr ((ln (S0 / K) + (r - sigma\<^sup>2 / 2) * T) / (sigma * sqrt T))"
proof -
  have nz: "sigma * sqrt T \<noteq> 0" "K \<noteq> 0" using assms by simp_all
  have q: "\<not> S0 / K \<le> 0" using assms by (simp add: not_le)
  show "bsm_d1 ks S0 K T r sigma = Inr ((ln (S0 / K) + (r + sigma\<^sup>2 / 2) * T) / (sigma * sqrt T))"
    using assms nz q by (simp add: bsm_d1_def div_of_nonzero py_log_def py_sqrt_def)
  show "bsm_d2 ks S0 K T r sigma = Inr ((ln (S0 / K) + (r - sigma\<^sup>2 / 2) * T) / (sigma * sqrt T))"
    using assms nz q by (simp add: bsm_d2_def div_of_nonzero py_log_def py_sqrt_def)
qed

lemma py_range_Suc: "0 \<le> n \<Longrightarrow> py_range (n + 1) = py_range n @ [n]"
  by (simp add: py_range_def upto_rec2)

lemma imp_vol_loop_snoc:
  "imp_vol_loop ks S0 K T r C0 (xs @ [i]) s =
     (case imp_vol_loop ks S0 K T r C0 xs s of Inl e \<Rightarrow> Inl e
      | Inr s' \<Rightarrow>
          imp_vol_body (if xs = [] then ks else ks\<lparr>kind_sigma := Numpy\<rparr>) S0 K T r C0 s')"
proof (induction xs arbitrary: ks s)
  case Nil
  show ?case by (simp split: sum.splits)
next
  case (Cons x xs)
  have k: "(if xs = [] then ks\<lparr>kind_sigma := Numpy\<rparr>
            else ks\<lparr>kind_sigma := Numpy\<rparr>\<lparr>kind_sigma := Numpy\<rparr>) = ks\<lparr>kind_sigma := Numpy\<rparr>"
    by simp
  show ?case
    by (simp add: Cons[of "ks\<lparr>kind_sigma := Numpy\<rparr>"] k split: sum.splits)
qed

lemma imp_vol_loop_seq:
  "imp_vol_loop ks S0 K T r C0 (py_range (int n)) s = imp_vol_seq ks S0 K T r C0 s n"
proof (induction n)
  case 0
  show ?case by (simp add: py_range_def)
next
  case (Suc n)
  have r: "py_range (int (Suc n)) = py_range (int n) @ [int n]"
    using py_range_Suc[of "int n"] by (simp add: add.commute)
  have e: "(py_range (int n) = []) = (n = 0)"
    by (cases n) (simp_all add: py_range_def upto_rec1)
  show ?case
    unfolding r imp_vol_loop_snoc Suc by (simp only: e imp_vol_seq.simps)
qed

section \<open>The normal distribution function\<close>

subsection \<open>The derivative of the series of erf\<close>

lemma erf_coeff_summable: "summable (\<lambda>n. erf_coeff n * u ^ n)"
proof (rule summable_comparison_test')
  show "summable (\<lambda>n. inverse (fact n) * \<bar>u\<bar> ^ n)" by (rule summable_exp)
  fix n :: nat
  have "norm (erf_coeff n * u ^ n) = \<bar>u\<bar> ^ n / (fact n * (2 * real n + 1))"
    by (simp add: erf_coeff_def abs_mult power_abs)
  also have "\<dots> \<le> \<bar>u\<bar> ^ n / fact n"
    by (intro divide_left_mono) (auto simp: mult_le_cancel_left1)
  finally show "norm (erf_coeff n * u ^ n) \<le> inverse (fact n) * \<bar>u\<bar> ^ n"
    by (simp add: field_simps)
qed

lemma erf_coeff_deriv:
  "((\<lambda>u. \<Sum>n. erf_coeff n * u ^ n) has_field_derivative (\<Sum>n. diffs erf_coeff n * u ^ n)) (at u)"
  by (rule termdiffs_strong_converges_everywhere) (rule erf_coeff_summable)

lemma erf_coeff_ode:
  "(\<Sum>n. erf_coeff n * u ^ n) + 2 * u * (\<Sum>n. diffs erf_coeff n * u ^ n) = exp (- u)"
proof -
  have a: "(\<lambda>n. erf_coeff n * u ^ n) sums (\<Sum>n. erf_coeff n * u ^ n)"
    using erf_coeff_summable by (rule summable_sums)
  have "summable (\<lambda>n. diffs erf_coeff n * u ^ n)"
    by (rule termdiff_converges_all) (rule erf_coeff_summable)
  then have "(\<lambda>n. diffs erf_coeff n * u ^ n) sums (\<Sum>n. diffs erf_coeff n * u ^ n)"
    by (rule summable_sums)
  then have "(\<lambda>n. (2 * u) * (diffs erf_coeff n * u ^ n)) sums (2 * u * (\<Sum>n. diffs erf_coeff n * u ^ n))"
    by (rule sums_mult)
  then have "(\<lambda>n. 2 * real (Suc n) * erf_coeff (Suc n) * u ^ Suc n) sums (2 * u * (\<Sum>n. diffs erf_coeff n * u ^ n))"
    by (simp add: diffs_def mult_ac)
  then have b: "(\<lambda>n. 2 * real n * erf_coeff n * u ^ n) sums (2 * u * (\<Sum>n. diffs erf_coeff n * u ^ n))"
    using sums_Suc_iff[of "\<lambda>n. 2 * real n * erf_coeff n * u ^ n"] by simp
  have "(\<lambda>n. erf_coeff n * u ^ n + 2 * real n * erf_coeff n * u ^ n)
          sums ((\<Sum>n. erf_coeff n * u ^ n) + 2 * u * (\<Sum>n. diffs erf_coeff n * u ^ n))"
    using a b by (rule sums_add)
  moreover have "erf_coeff n * u ^ n + 2 * real n * erf_coeff n * u ^ n = (- u) ^ n /\<^sub>R fact n" for n
  proof -
    have "erf_coeff n * u ^ n + 2 * real n * erf_coeff n * u ^ n = (2 * real n + 1) * erf_coeff n * u ^ n"
      by (simp add: algebra_simps)
    also have "(2 * real n + 1) * erf_coeff n = (- 1) ^ n / fact n"
    proof -
      have "2 * real n + 1 \<noteq> 0" using of_nat_0_le_iff[of n] by linarith
      then show ?thesis by (simp add: erf_coeff_def)
    qed
    also have "(- 1) ^ n / fact n * u ^ n = (- u) ^ n /\<^sub>R fact n"
      by (simp add: power_minus[of u] field_simps)
    finally show ?thesis .
  qed
  ultimately have "(\<lambda>n. (- u) ^ n /\<^sub>R fact n)
          sums ((\<Sum>n. erf_coeff n * u ^ n) + 2 * u * (\<Sum>n. diffs erf_coeff n * u ^ n))"
    by simp
  then show ?thesis using exp_converges[of "- u"] by (rule sums_unique2)
qed

lemma erf_series_eq: "erf_series x = x * (\<Sum>n. erf_coeff n * (x\<^sup>2) ^ n)"
proof -
  have "x ^ (2 * n + 1) = x * (x\<^sup>2) ^ n" for n
    using power_mult[of x 2 n] by simp
  then have "erf_series x = (\<Sum>n. x * (erf_coeff n * (x\<^sup>2) ^ n))"
    by (simp only: erf_series_def mult.left_commute)
  also have "\<dots> = x * (\<Sum>n. erf_coeff n * (x\<^sup>2) ^ n)"
    by (rule suminf_mult) (rule erf_coeff_summable)
  finally show ?thesis .
qed

lemma DERIV_erf_series: "(erf_series has_real_derivative exp (- x\<^sup>2)) (at x)"
proof -
  have "((\<lambda>x. x * (\<Sum>n. erf_coeff n * (x\<^sup>2) ^ n)) has_real_derivative
          (\<Sum>n. erf_coeff n * (x\<^sup>2) ^ n) + 2 * x\<^sup>2 * (\<Sum>n. diffs erf_coeff n * (x\<^sup>2) ^ n)) (at x)"
    by (rule derivative_eq_intros DERIV_chain2[OF erf_coeff_deriv] refl | simp add: power2_eq_square)+
  then have "((\<lambda>x. x * (\<Sum>n. erf_coeff n * (x\<^sup>2) ^ n)) has_real_derivative exp (- x\<^sup>2)) (at x)"
    by (simp only: erf_coeff_ode)
  then show ?thesis
    by (simp add: erf_series_eq[abs_def])
qed

subsection \<open>Wallis integrals\<close>

lemma DERIV_cos_int: "(cos_int m has_real_derivative cos x ^ m) (at x)"
proof (induction m x rule: cos_int.induct)
  case (1 x)
  show ?case by (simp add: cos_int.simps[abs_def])
next
  case (2 x)
  show ?case by (auto simp: cos_int.simps[abs_def] intro!: derivative_eq_intros)
next
  case (3 m x)
  define k where "k = 1 / real (m + 2)"
  have k: "real (m + 2) * k = 1" by (simp add: k_def)
  have s: "sin x * sin x = 1 - cos x * cos x"
    using sin_cos_squared_add3[of x] by (simp add: algebra_simps)
  have f: "cos_int (Suc (Suc m)) = (\<lambda>x. cos x ^ Suc m * sin x * k + real (m + 1) * k * cos_int m x)"
    by (rule ext) (simp add: k_def)
  have "((\<lambda>x. cos x ^ Suc m * sin x * k + real (m + 1) * k * cos_int m x)
          has_real_derivative
          ((real (Suc m) * cos x ^ m * (- sin x)) * sin x + cos x ^ Suc m * cos x) * k
           + real (m + 1) * k * cos x ^ m) (at x)"
    by (rule derivative_eq_intros "3.IH" refl | simp)+
  moreover have "((real (Suc m) * cos x ^ m * (- sin x)) * sin x + cos x ^ Suc m * cos x) * k
           + real (m + 1) * k * cos x ^ m = cos x ^ Suc (Suc m)"
  proof -
    have "((real (Suc m) * cos x ^ m * (- sin x)) * sin x + cos x ^ Suc m * cos x) * k
           + real (m + 1) * k * cos x ^ m
        = (- real (m + 1) * cos x ^ m * (sin x * sin x) + cos x ^ m * (cos x * cos x)) * k
           + real (m + 1) * k * cos x ^ m"
      by (simp add: algebra_simps)
    also have "\<dots> = (real (m + 2) * k) * (cos x ^ m * (cos x * cos x))"
      unfolding s by (simp add: algebra_simps)
    also have "\<dots> = cos x ^ Suc (Suc m)"
      unfolding k by simp
    finally show ?thesis .
  qed
  ultimately show ?case unfolding f by simp
qed

lemma cos_int_0_aux: "x = 0 \<Longrightarrow> cos_int m x = 0"
  by (induction m x rule: cos_int.induct) simp_all

lemma cos_int_0: "cos_int m 0 = 0"
  by (simp add: cos_int_0_aux)

lemma wallis_0: "wallis 0 = pi / 2" by (simp add: wallis_def)
lemma wallis_1: "wallis (Suc 0) = 1" by (simp add: wallis_def)
lemma wallis_Suc_Suc: "wallis (Suc (Suc m)) = real (m + 1) / real (m + 2) * wallis m"
  by (simp add: wallis_def)

lemma wallis_pos: "0 < wallis m"
proof (induction m rule: less_induct)
  case (less m)
  show ?case
  proof (cases m)
    case 0 then show ?thesis by (simp add: wallis_0)
  next
    case (Suc k)
    show ?thesis
    proof (cases k)
      case 0 then show ?thesis using Suc by (simp add: wallis_1)
    next
      case (Suc j)
      then have "0 < wallis j" using less[of j] \<open>m = Suc k\<close> by simp
      then show ?thesis using Suc \<open>m = Suc k\<close> by (simp add: wallis_Suc_Suc del: of_nat_Suc)
    qed
  qed
qed

lemma wallis_prod: "wallis m * wallis (Suc m) = pi / (2 * real (m + 1))"
proof (induction m)
  case 0 show ?case by (simp add: wallis_0 wallis_1)
next
  case (Suc m)
  have "wallis (Suc m) * wallis (Suc (Suc m)) = real (m + 1) / real (m + 2) * (wallis m * wallis (Suc m))"
    by (simp add: wallis_Suc_Suc)
  also have "\<dots> = real (m + 1) / real (m + 2) * (pi / (2 * real (m + 1)))"
    by (simp only: Suc)
  also have "\<dots> = pi / (2 * real (m + 2))"
  proof -
    have "a / b * (pi / (2 * a)) = pi / (2 * b)" if "0 < a" "0 < b" for a b :: real
      using that by (simp add: field_simps)
    from this[of "real (m + 1)" "real (m + 2)"] show ?thesis by simp
  qed
  finally show ?case by simp
qed

lemma cos_int_mono:
  assumes "0 \<le> a" "a \<le> b" "b \<le> pi / 2"
  shows "cos_int m a \<le> cos_int m b"
proof (rule DERIV_nonneg_imp_nondecreasing[where f = "cos_int m" and a = a and b = b, OF assms(2)])
  fix x assume "a \<le> x" "x \<le> b"
  then have "0 \<le> cos x" using assms by (intro cos_ge_zero) auto
  then have "0 \<le> cos x ^ m" by simp
  then show "\<exists>y. (cos_int m has_real_derivative y) (at x) \<and> 0 \<le> y"
    using DERIV_cos_int by blast
qed

lemma wallis_antimono: "wallis (Suc m) \<le> wallis m"
proof -
  have "cos_int m 0 - cos_int (Suc m) 0 \<le> cos_int m (pi / 2) - cos_int (Suc m) (pi / 2)"
  proof (rule DERIV_nonneg_imp_nondecreasing[where f = "\<lambda>x. cos_int m x - cos_int (Suc m) x"
        and a = 0 and b = "pi / 2"])
    show "0 \<le> pi / 2" by simp
    fix x :: real assume x: "0 \<le> x" "x \<le> pi / 2"
    then have c: "0 \<le> cos x" by (intro cos_ge_zero) auto
    have "((\<lambda>x. cos_int m x - cos_int (Suc m) x) has_real_derivative (cos x ^ m - cos x ^ Suc m)) (at x)"
      by (intro derivative_intros DERIV_cos_int)
    moreover have "cos x ^ Suc m \<le> cos x ^ m"
      using c by (simp add: mult_left_le_one_le)
    ultimately show "\<exists>y. ((\<lambda>x. cos_int m x - cos_int (Suc m) x) has_real_derivative y) (at x) \<and> 0 \<le> y"
      by (intro exI[of _ "cos x ^ m - cos x ^ Suc m"]) simp
  qed
  then show ?thesis by (simp add: cos_int_0 wallis_def)
qed

lemma wallis_sq_upper: "(wallis (Suc m))\<^sup>2 \<le> pi / (2 * real (m + 1))"
proof -
  have "(wallis (Suc m))\<^sup>2 = wallis (Suc m) * wallis (Suc m)" by (simp add: power2_eq_square)
  also have "\<dots> \<le> wallis m * wallis (Suc m)"
    using wallis_antimono[of m] wallis_pos[of "Suc m"] by (intro mult_right_mono) simp_all
  finally show ?thesis by (simp only: wallis_prod)
qed

lemma wallis_sq_lower: "pi / (2 * real (m + 1)) \<le> (wallis m)\<^sup>2"
proof -
  have "wallis m * wallis (Suc m) \<le> wallis m * wallis m"
    using wallis_antimono[of m] wallis_pos[of m] by (intro mult_left_mono) simp_all
  then show ?thesis by (simp only: wallis_prod power2_eq_square)
qed

subsection \<open>The Gaussian integral from above\<close>

lemma erf_series_0: "erf_series 0 = 0"
  by (simp add: erf_series_def)

lemma erf_series_minus: "erf_series (- x) = - erf_series x"
  by (simp add: erf_series_eq)

lemma erf_series_strict_mono:
  assumes "x < y"
  shows "erf_series x < erf_series y"
proof (rule DERIV_pos_imp_increasing[where f = erf_series and a = x and b = y, OF assms])
  fix t :: real
  show "\<exists>d. (erf_series has_real_derivative d) (at t) \<and> 0 < d"
    using DERIV_erf_series[of t] exp_gt_zero[of "- t\<^sup>2"] by blast
qed

lemma erf_series_nonneg: "0 \<le> x \<Longrightarrow> 0 \<le> erf_series x"
  using erf_series_strict_mono[of 0 x] erf_series_0 by (cases "x = 0") auto

lemma one_plus_le_exp_power: "(1 + x\<^sup>2) ^ n \<le> exp (real n * x\<^sup>2)"
proof -
  have "(1 + x\<^sup>2) ^ n \<le> exp (x\<^sup>2) ^ n"
    by (intro power_mono) auto
  then show ?thesis by (simp add: exp_of_nat_mult)
qed

lemma DERIV_erf_series_comp:
  "(g has_real_derivative D) (at x) \<Longrightarrow>
     ((\<lambda>x. erf_series (g x)) has_real_derivative exp (- (g x)\<^sup>2) * D) (at x)"
  by (rule DERIV_chain2[OF DERIV_erf_series])

lemma DERIV_cos_int_comp:
  "(g has_real_derivative D) (at x) \<Longrightarrow>
     ((\<lambda>x. cos_int m (g x)) has_real_derivative cos (g x) ^ m * D) (at x)"
  by (rule DERIV_chain2[OF DERIV_cos_int])

lemma erf_series_scaled_upper:
  assumes x: "0 \<le> x"
  shows "erf_series (sqrt (real (Suc k)) * x) / sqrt (real (Suc k)) \<le> cos_int (2 * k) (arctan x)"
proof -
  define c where "c = sqrt (real (Suc k))"
  have c: "0 < c" "c * c = real (Suc k)" by (simp_all add: c_def)
  define f where "f t = cos_int (2 * k) (arctan t) - erf_series (c * t) * inverse c" for t
  have "f 0 \<le> f x"
  proof (rule DERIV_nonneg_imp_nondecreasing[where f = f and a = 0 and b = x, OF x])
    fix t :: real
    assume "0 \<le> t" "t \<le> x"
    have p: "0 < 1 + t\<^sup>2" by (simp add: add_pos_nonneg)
    have d: "(f has_real_derivative (cos (arctan t) ^ (2 * k) * inverse (1 + t\<^sup>2) - exp (- (c * t)\<^sup>2) * c / c)) (at t)"
      unfolding f_def using c(1)
      by (auto intro!: derivative_eq_intros DERIV_cos_int_comp DERIV_erf_series_comp)
    have "cos (arctan t) ^ (2 * k) = (1 / (1 + t\<^sup>2)) ^ k"
      using p by (simp add: power_mult cos_arctan power_divide)
    then have "cos (arctan t) ^ (2 * k) * inverse (1 + t\<^sup>2) = 1 / (1 + t\<^sup>2) ^ Suc k"
      by (simp add: field_simps)
    moreover have "exp (- (c * t)\<^sup>2) * c / c = 1 / exp (real (Suc k) * t\<^sup>2)"
    proof -
      have "(c * t)\<^sup>2 = (c * c) * t\<^sup>2" by (simp add: power2_eq_square)
      then have e: "(c * t)\<^sup>2 = real (Suc k) * t\<^sup>2" by (simp only: c(2))
      have "exp (- (c * t)\<^sup>2) * c / c = exp (- (c * t)\<^sup>2)" using c(1) by simp
      also have "\<dots> = 1 / exp (real (Suc k) * t\<^sup>2)"
        unfolding e by (simp only: exp_minus inverse_eq_divide)
      finally show ?thesis .
    qed
    moreover have "1 / exp (real (Suc k) * t\<^sup>2) \<le> 1 / (1 + t\<^sup>2) ^ Suc k"
      using one_plus_le_exp_power[of t "Suc k"] p by (intro divide_left_mono) auto
    ultimately have "0 \<le> cos (arctan t) ^ (2 * k) * inverse (1 + t\<^sup>2) - exp (- (c * t)\<^sup>2) * c / c"
      by simp
    with d show "\<exists>y. (f has_real_derivative y) (at t) \<and> 0 \<le> y" by blast
  qed
  then show ?thesis
    by (simp add: f_def cos_int_0 erf_series_0 c_def field_simps)
qed

lemma erf_series_le_wallis:
  assumes y: "0 \<le> y"
  shows "erf_series y \<le> sqrt (real (Suc k)) * wallis (2 * k)"
proof -
  define c where "c = sqrt (real (Suc k))"
  have c: "0 < c" by (simp add: c_def)
  have "erf_series (c * (y / c)) / c \<le> cos_int (2 * k) (arctan (y / c))"
    unfolding c_def using y by (intro erf_series_scaled_upper) simp
  also have "\<dots> \<le> cos_int (2 * k) (pi / 2)"
    using y c arctan_ubound[of "y / c"] by (intro cos_int_mono) auto
  finally have "erf_series y / c \<le> wallis (2 * k)"
    using c by (simp add: wallis_def)
  then have "erf_series y \<le> c * wallis (2 * k)"
    using c by (simp add: field_simps)
  then show ?thesis unfolding c_def .
qed

lemma erf_series_sq_le:
  assumes y: "0 \<le> y"
  shows "(erf_series y)\<^sup>2 \<le> pi / 4 * (1 + 1 / real (Suc k))"
proof -
  have "(erf_series y)\<^sup>2 \<le> (sqrt (real (Suc (Suc k))) * wallis (2 * Suc k))\<^sup>2"
    using erf_series_le_wallis[OF y, of "Suc k"] erf_series_nonneg[OF y]
    by (intro power_mono) auto
  also have "\<dots> = real (Suc (Suc k)) * (wallis (Suc (2 * k + 1)))\<^sup>2"
    by (simp add: power_mult_distrib)
  also have "\<dots> \<le> real (Suc (Suc k)) * (pi / (2 * real (2 * k + 1 + 1)))"
    by (intro mult_left_mono wallis_sq_upper) simp
  also have "\<dots> = pi / 4 * (1 + 1 / real (Suc k))"
    by (simp add: field_simps)
  finally show ?thesis .
qed

lemma erf_series_le: "erf_series y \<le> sqrt pi / 2"
proof (cases "0 \<le> y")
  case False
  then have "erf_series y \<le> 0"
    using erf_series_nonneg[of "- y"] by (simp add: erf_series_minus)
  then show ?thesis by (meson order_trans real_sqrt_ge_zero pi_ge_zero divide_nonneg_pos zero_less_numeral)
next
  case True
  have "(erf_series y)\<^sup>2 \<le> pi / 4"
  proof (rule ccontr)
    assume "\<not> (erf_series y)\<^sup>2 \<le> pi / 4"
    then have "0 < (erf_series y)\<^sup>2 / (pi / 4) - 1" by (simp add: field_simps)
    then obtain k where k: "inverse (real (Suc k)) < (erf_series y)\<^sup>2 / (pi / 4) - 1"
      using reals_Archimedean by blast
    then have "pi / 4 * (1 + 1 / real (Suc k)) < (erf_series y)\<^sup>2"
      by (simp add: field_simps)
    then show False using erf_series_sq_le[OF True, of k] by simp
  qed
  then have "erf_series y \<le> sqrt (pi / 4)"
    by (rule real_le_rsqrt)
  then show ?thesis by (simp add: real_sqrt_divide)
qed

lemma erf_series_less: "erf_series y < sqrt pi / 2"
  using erf_series_strict_mono[of y "y + 1"] erf_series_le[of "y + 1"] by simp

subsection \<open>The Gaussian integral from below\<close>

lemma one_minus_le_exp_power:
  assumes "s\<^sup>2 \<le> 1"
  shows "(1 - s\<^sup>2) ^ n \<le> exp (- (real n * s\<^sup>2))"
proof -
  have "1 - s\<^sup>2 \<le> exp (- s\<^sup>2)" using exp_ge_add_one_self[of "- s\<^sup>2"] by simp
  then have "(1 - s\<^sup>2) ^ n \<le> exp (- s\<^sup>2) ^ n"
    using assms by (intro power_mono) auto
  moreover have "exp (- s\<^sup>2) ^ n = exp (real n * (- s\<^sup>2))"
    by (rule exp_of_nat_mult[symmetric])
  ultimately show ?thesis by simp
qed

lemma wallis_le_erf_series:
  "sqrt (real (Suc k)) * wallis (2 * Suc k + 1) \<le> erf_series (sqrt (real (Suc k)))"
proof -
  define n where "n = Suc k"
  define c where "c = sqrt (real n)"
  have c: "0 < c" "c * c = real n" by (simp_all add: c_def n_def)
  define f where "f t = erf_series (c * sin t) * inverse c - cos_int (2 * n + 1) t" for t
  have "f 0 \<le> f (pi / 2)"
  proof (rule DERIV_nonneg_imp_nondecreasing[where f = f and a = 0 and b = "pi / 2"])
    show "0 \<le> pi / 2" by simp
    fix t :: real
    assume t: "0 \<le> t" "t \<le> pi / 2"
    then have ct: "0 \<le> cos t" by (intro cos_ge_zero) auto
    have d: "(f has_real_derivative (exp (- (c * sin t)\<^sup>2) * cos t - cos t ^ (2 * n + 1))) (at t)"
      unfolding f_def using c(1)
      by (auto intro!: derivative_eq_intros DERIV_cos_int_comp DERIV_erf_series_comp DERIV_cos_int)
    have "(c * sin t)\<^sup>2 = (c * c) * (sin t)\<^sup>2" by (simp add: power2_eq_square)
    then have e: "(c * sin t)\<^sup>2 = real n * (sin t)\<^sup>2" by (simp only: c(2))
    have "cos t ^ (2 * n + 1) = ((cos t)\<^sup>2) ^ n * cos t"
      using power_mult[of "cos t" 2 n] by simp
    also have "(cos t)\<^sup>2 = 1 - (sin t)\<^sup>2"
      by (rule cos_squared_eq)
    also have "(1 - (sin t)\<^sup>2) ^ n * cos t \<le> exp (- (real n * (sin t)\<^sup>2)) * cos t"
      using ct by (intro mult_right_mono one_minus_le_exp_power) (simp_all add: abs_square_le_1)
    finally have "0 \<le> exp (- (c * sin t)\<^sup>2) * cos t - cos t ^ (2 * n + 1)"
      by (simp add: e)
    with d show "\<exists>y. (f has_real_derivative y) (at t) \<and> 0 \<le> y" by blast
  qed
  then have "wallis (2 * n + 1) \<le> erf_series c / c"
    by (simp add: f_def cos_int_0 erf_series_0 wallis_def field_simps)
  then have "c * wallis (2 * n + 1) \<le> erf_series c"
    using c(1) by (simp add: field_simps)
  then show ?thesis unfolding c_def n_def .
qed

lemma erf_series_sq_ge:
  "pi / 4 * (1 - 1 / real (k + 2)) \<le> (erf_series (sqrt (real (Suc k))))\<^sup>2"
proof -
  have "pi / 4 * (1 - 1 / real (k + 2)) = real (Suc k) * (pi / (2 * real (2 * Suc k + 1 + 1)))"
    by (simp add: field_simps)
  also have "\<dots> \<le> real (Suc k) * (wallis (2 * Suc k + 1))\<^sup>2"
    by (intro mult_left_mono wallis_sq_lower) simp
  also have "\<dots> = (sqrt (real (Suc k)) * wallis (2 * Suc k + 1))\<^sup>2"
    by (simp add: power_mult_distrib)
  also have "\<dots> \<le> (erf_series (sqrt (real (Suc k))))\<^sup>2"
    using wallis_le_erf_series[of k] wallis_pos[of "2 * Suc k + 1"]
    by (intro power_mono) (auto intro!: mult_nonneg_nonneg less_imp_le)
  finally show ?thesis .
qed

lemma erf_series_approaches:
  assumes e: "0 < e"
  shows "\<exists>y. sqrt pi / 2 - e < erf_series y"
proof -
  define d where "d = min e (sqrt pi / 4)"
  have sp: "0 < sqrt pi" by simp
  have "d \<le> sqrt pi / 4" by (simp add: d_def)
  then have "d < sqrt pi / 2" using sp by linarith
  moreover have "0 < d" "d \<le> e" using sp by (simp_all add: d_def e)
  ultimately have d: "0 < d" "d \<le> e" "d < sqrt pi / 2" by simp_all
  define L where "L = sqrt pi / 2 - d"
  have L: "0 < L" "L < sqrt pi / 2" using d by (simp_all add: L_def)
  have "L\<^sup>2 < (sqrt pi / 2)\<^sup>2" using L by (intro power_strict_mono) auto
  then have L2: "L\<^sup>2 < pi / 4" by (simp add: power_divide)
  then have "0 < 1 - L\<^sup>2 / (pi / 4)" by (simp add: field_simps)
  then obtain k where k: "inverse (real (Suc k)) < 1 - L\<^sup>2 / (pi / 4)"
    using reals_Archimedean by blast
  have "1 / real (k + 2) \<le> inverse (real (Suc k))" by (simp add: field_simps)
  then have "1 / real (k + 2) < 1 - L\<^sup>2 / (pi / 4)" using k by linarith
  then have "L\<^sup>2 < pi / 4 * (1 - 1 / real (k + 2))" by (simp add: field_simps)
  then have lt: "L\<^sup>2 < (erf_series (sqrt (real (Suc k))))\<^sup>2"
    using erf_series_sq_ge[of k] by linarith
  have nn: "0 \<le> erf_series (sqrt (real (Suc k)))"
    by (rule erf_series_nonneg) simp
  have "L < erf_series (sqrt (real (Suc k)))"
    using lt nn by (rule power2_less_imp_less)
  then have "sqrt pi / 2 - e < erf_series (sqrt (real (Suc k)))"
    using d by (simp add: L_def)
  then show ?thesis by blast
qed

subsection \<open>The error function and the normal distribution function\<close>

lemma erf_eq: "erf x = 2 / sqrt pi * erf_series x"
  by (simp add: erf_def)

lemma DERIV_erf: "(erf has_real_derivative 2 / sqrt pi * exp (- x\<^sup>2)) (at x)"
proof -
  define c where "c = 2 / sqrt pi"
  have "((\<lambda>x. c * erf_series x) has_real_derivative c * exp (- x\<^sup>2)) (at x)"
    by (intro DERIV_cmult DERIV_erf_series)
  then show ?thesis unfolding c_def erf_eq[abs_def] .
qed

lemma erf_minus: "erf (- x) = - erf x"
  by (simp add: erf_eq erf_series_minus)

lemma erf_less_1: "erf x < 1"
proof -
  have "2 / sqrt pi * erf_series x < 2 / sqrt pi * (sqrt pi / 2)"
    using erf_series_less[of x] by (intro mult_strict_left_mono) auto
  then show ?thesis by (simp add: erf_eq)
qed

lemma erf_greater_minus_1: "- 1 < erf x"
  using erf_less_1[of "- x"] by (simp add: erf_minus)

lemma erf_approaches_1:
  assumes e: "0 < e"
  shows "\<exists>y. 1 - e < erf y"
proof -
  have "0 < e * (sqrt pi / 2)" using e by simp
  then obtain y where y: "sqrt pi / 2 - e * (sqrt pi / 2) < erf_series y"
    using erf_series_approaches by blast
  have "2 / sqrt pi * (sqrt pi / 2 - e * (sqrt pi / 2)) < 2 / sqrt pi * erf_series y"
    using y by (intro mult_strict_left_mono) auto
  then have "1 - e < erf y" by (simp add: erf_eq algebra_simps)
  then show ?thesis by blast
qed

lemma norm_cdf_pos: "0 < norm_cdf x"
  using erf_greater_minus_1[of "x / sqrt 2"] by (simp add: norm_cdf_def)

lemma norm_cdf_less_1: "norm_cdf x < 1"
  using erf_less_1[of "x / sqrt 2"] by (simp add: norm_cdf_def)

lemma DERIV_norm_cdf: "(norm_cdf has_real_derivative norm_pdf x) (at x)"
proof -
  define a where "a = sqrt 2"
  define b where "b = sqrt pi"
  have ab: "0 < a" "0 < b" "a * a = 2" by (simp_all add: a_def b_def)
  have "((\<lambda>x. (1 + erf (x * inverse a)) * (1 / 2)) has_real_derivative
           (0 + (2 / b * exp (- (x * inverse a)\<^sup>2)) * (1 * inverse a)) * (1 / 2)) (at x)"
    unfolding b_def
    by (intro DERIV_cmult_right DERIV_add DERIV_const DERIV_chain2[OF DERIV_erf] DERIV_ident)
  moreover have "(\<lambda>x. (1 + erf (x * inverse a)) * (1 / 2)) = norm_cdf"
    by (rule ext) (simp add: norm_cdf_def a_def field_simps)
  moreover have "(0 + (2 / b * exp (- (x * inverse a)\<^sup>2)) * (1 * inverse a)) * (1 / 2) = norm_pdf x"
  proof -
    have "(x * inverse a)\<^sup>2 = x\<^sup>2 / (a * a)"
      by (simp add: power2_eq_square field_simps)
    then have e: "(x * inverse a)\<^sup>2 = x\<^sup>2 / 2" by (simp only: ab(3))
    have "norm_pdf x = exp (- x\<^sup>2 / 2) / (a * b)"
      by (simp add: norm_pdf_def real_sqrt_mult a_def b_def)
    moreover have "(0 + (2 / b * exp (- (x * inverse a)\<^sup>2)) * (1 * inverse a)) * (1 / 2)
        = exp (- x\<^sup>2 / 2) / (a * b)"
      unfolding e using ab(1,2) by (simp add: field_simps)
    ultimately show ?thesis by simp
  qed
  ultimately show ?thesis by simp
qed

lemma norm_pdf_pos: "0 < norm_pdf x"
  by (simp add: norm_pdf_def)

lemma norm_cdf_strict_mono:
  assumes "x < y"
  shows "norm_cdf x < norm_cdf y"
proof (rule DERIV_pos_imp_increasing[where f = norm_cdf and a = x and b = y, OF assms])
  fix t :: real
  show "\<exists>d. (norm_cdf has_real_derivative d) (at t) \<and> 0 < d"
    using DERIV_norm_cdf[of t] norm_pdf_pos[of t] by blast
qed

lemma norm_cdf_small:
  assumes e: "0 < e"
  shows "\<exists>x0. \<forall>x \<le> x0. norm_cdf x < e"
proof -
  obtain y where y: "1 - e < erf y" using erf_approaches_1[OF e] by blast
  have "norm_cdf (- (y * sqrt 2)) = (1 - erf y) / 2"
    by (simp add: norm_cdf_def erf_minus)
  then have "norm_cdf (- (y * sqrt 2)) < e" using y e by simp
  moreover have "norm_cdf x \<le> norm_cdf (- (y * sqrt 2))" if "x \<le> - (y * sqrt 2)" for x
    using norm_cdf_strict_mono[of x "- (y * sqrt 2)"] that by (cases "x = - (y * sqrt 2)") auto
  ultimately have "\<forall>x \<le> - (y * sqrt 2). norm_cdf x < e"
    by (meson le_less_trans)
  then show ?thesis by blast
qed

subsection \<open>Positivity of the call price\<close>

lemma norm_pdf_shift:
  assumes v: "v \<noteq> 0"
  shows "exp x * norm_pdf (x / v + v / 2) = norm_pdf (x / v - v / 2)"
proof -
  have "(x / v - v / 2)\<^sup>2 = (x / v + v / 2)\<^sup>2 - 2 * x"
    using v by (simp add: power2_eq_square field_simps)
  then have "- (x / v - v / 2)\<^sup>2 / 2 = x + - (x / v + v / 2)\<^sup>2 / 2"
    by simp
  then have "exp (- (x / v - v / 2)\<^sup>2 / 2) = exp x * exp (- (x / v + v / 2)\<^sup>2 / 2)"
    by (simp only: exp_add)
  then show ?thesis by (simp add: norm_pdf_def)
qed

lemma DERIV_norm_cdf_comp:
  "(g has_real_derivative D) (at x) \<Longrightarrow>
     ((\<lambda>x. norm_cdf (g x)) has_real_derivative norm_pdf (g x) * D) (at x)"
  by (rule DERIV_chain2[OF DERIV_norm_cdf])

lemma DERIV_call_ratio:
  assumes v: "v \<noteq> 0"
  shows "(call_ratio v has_real_derivative exp x * norm_cdf (x / v + v / 2)) (at x)"
proof -
  have D: "(call_ratio v has_real_derivative
          (exp x * (norm_pdf (x / v + v / 2) * (1 / v)) + exp x * norm_cdf (x / v + v / 2))
           - norm_pdf (x / v - v / 2) * (1 / v)) (at x)"
    unfolding call_ratio_def[abs_def] using v
    by (auto intro!: derivative_eq_intros DERIV_norm_cdf_comp simp: field_simps)
  have E: "(exp x * (norm_pdf (x / v + v / 2) * (1 / v)) + exp x * norm_cdf (x / v + v / 2))
           - norm_pdf (x / v - v / 2) * (1 / v)
         = exp x * norm_cdf (x / v + v / 2)"
    unfolding norm_pdf_shift[OF v, of x, symmetric] by (simp add: algebra_simps)
  show ?thesis using D unfolding E .
qed

lemma call_ratio_strict_mono:
  assumes v: "v \<noteq> 0" and xy: "x < y"
  shows "call_ratio v x < call_ratio v y"
proof (rule DERIV_pos_imp_increasing[where f = "call_ratio v" and a = x and b = y, OF xy])
  fix t :: real
  have "0 < exp t * norm_cdf (t / v + v / 2)"
    using norm_cdf_pos by simp
  then show "\<exists>d. (call_ratio v has_real_derivative d) (at t) \<and> 0 < d"
    using DERIV_call_ratio[OF v, of t] by blast
qed

lemma call_ratio_pos:
  assumes v: "0 < v"
  shows "0 < call_ratio v x"
proof (rule ccontr)
  assume "\<not> 0 < call_ratio v x"
  then have "call_ratio v (x - 1) < 0"
    using call_ratio_strict_mono[of v "x - 1" x] v by simp
  then have e: "0 < - call_ratio v (x - 1)" by simp
  obtain x0 where x0: "\<forall>t \<le> x0. norm_cdf t < - call_ratio v (x - 1)"
    using norm_cdf_small[OF e] by blast
  define y where "y = min (x - 1) (v * (x0 + v / 2))"
  have "y \<le> v * (x0 + v / 2)" by (simp add: y_def)
  then have "y / v \<le> x0 + v / 2"
    using v by (simp add: field_simps)
  then have "y / v - v / 2 \<le> x0" by simp
  then have s: "norm_cdf (y / v - v / 2) < - call_ratio v (x - 1)"
    using x0 by blast
  have "y \<le> x - 1" by (simp add: y_def)
  then have "call_ratio v y \<le> call_ratio v (x - 1)"
    using call_ratio_strict_mono[of v y "x - 1"] v
    by (cases "y = x - 1") auto
  moreover have "- norm_cdf (y / v - v / 2) < call_ratio v y"
    using norm_cdf_pos[of "y / v + v / 2"] by (simp add: call_ratio_def)
  ultimately show False using s by linarith
qed

lemma bsm_price_pos:
  assumes "0 < S0" "0 < K" "0 < T" "0 < sigma"
  shows "0 < S0 * norm_cdf ((ln (S0 / K) + (r + sigma\<^sup>2 / 2) * T) / (sigma * sqrt T))
           - K * exp (- r * T) * norm_cdf ((ln (S0 / K) + (r - sigma\<^sup>2 / 2) * T) / (sigma * sqrt T))"
proof -
  define v where "v = sigma * sqrt T"
  define c where "c = K * exp (- r * T)"
  define x where "x = ln (S0 / K) + r * T"
  have v: "0 < v" using assms by (simp add: v_def)
  have c: "0 < c" using assms by (simp add: c_def)
  have vv: "v * v = sigma\<^sup>2 * T" using assms by (simp add: v_def power2_eq_square)
  have ex: "c * exp x = S0"
    using assms by (simp add: c_def x_def exp_add exp_minus field_simps)
  have d1: "(ln (S0 / K) + (r + sigma\<^sup>2 / 2) * T) / v = x / v + v / 2"
  proof -
    have "x / v + v / 2 = (x + v * v / 2) / v" using v by (simp add: field_simps)
    also have "\<dots> = (ln (S0 / K) + (r + sigma\<^sup>2 / 2) * T) / v"
      unfolding vv x_def by (simp add: algebra_simps)
    finally show ?thesis by simp
  qed
  have d2: "(ln (S0 / K) + (r - sigma\<^sup>2 / 2) * T) / v = x / v - v / 2"
  proof -
    have "x / v - v / 2 = (x - v * v / 2) / v" using v by (simp add: field_simps)
    also have "\<dots> = (ln (S0 / K) + (r - sigma\<^sup>2 / 2) * T) / v"
      unfolding vv x_def by (simp add: algebra_simps)
    finally show ?thesis by simp
  qed
  have "0 < c * call_ratio v x" using c call_ratio_pos[OF v, of x] by simp
  also have "c * call_ratio v x = (c * exp x) * norm_cdf (x / v + v / 2) - c * norm_cdf (x / v - v / 2)"
    by (simp add: call_ratio_def algebra_simps)
  finally show ?thesis
    unfolding ex d1[symmetric] d2[symmetric] unfolding v_def c_def .
qed

subsection \<open>The price and its derivative in sigma\<close>

lemma bsm_call_value_formula:
  assumes "0 < S0" "0 < K" "0 < T" "sigma \<noteq> 0"
  shows "bsm_call_value ks S0 K T r sigma = Inr (bsm_formula S0 K T r sigma)"
  using bsm_d1_d2_value[OF assms, of ks r] by (simp add: bsm_call_value_def bsm_formula_def)

lemma bsm_vega_value:
  assumes "0 < S0" "0 < K" "0 < T" "sigma \<noteq> 0"
  shows "bsm_vega ks S0 K T r sigma =
     Inr (S0 * norm_cdf ((ln (S0 / K) + (r + sigma\<^sup>2 / 2) * T) / (sigma * sqrt T)) * sqrt T)"
  using bsm_d1_d2_value(1)[OF assms, of ks r] assms(3) by (simp add: bsm_vega_def py_sqrt_def)

lemma DERIV_call_ratio_v:
  assumes v: "v \<noteq> 0"
  shows "((\<lambda>v. call_ratio v x) has_real_derivative norm_pdf (x / v - v / 2)) (at v)"
proof -
  have D: "((\<lambda>v. call_ratio v x) has_real_derivative
          exp x * (norm_pdf (x / v + v / 2) * (- x / (v * v) + 1 / 2))
           - norm_pdf (x / v - v / 2) * (- x / (v * v) - 1 / 2)) (at v)"
    unfolding call_ratio_def using v
    by (auto intro!: derivative_eq_intros DERIV_norm_cdf_comp simp: field_simps)
  have E: "exp x * (norm_pdf (x / v + v / 2) * (- x / (v * v) + 1 / 2))
           - norm_pdf (x / v - v / 2) * (- x / (v * v) - 1 / 2) = norm_pdf (x / v - v / 2)"
    unfolding norm_pdf_shift[OF v, of x, symmetric] by (simp add: algebra_simps)
  show ?thesis using D unfolding E .
qed

lemma bsm_formula_call_ratio:
  assumes "0 < S0" "0 < K" "0 < T" "sigma \<noteq> 0"
  shows "bsm_formula S0 K T r sigma
     = K * exp (- r * T) * call_ratio (sigma * sqrt T) (ln (S0 / K) + r * T)"
    and "(ln (S0 / K) + (r + sigma\<^sup>2 / 2) * T) / (sigma * sqrt T)
     = (ln (S0 / K) + r * T) / (sigma * sqrt T) + sigma * sqrt T / 2"
    and "K * exp (- r * T) * exp (ln (S0 / K) + r * T) = S0"
proof -
  define v where "v = sigma * sqrt T"
  define x where "x = ln (S0 / K) + r * T"
  have v: "v \<noteq> 0" using assms by (simp add: v_def)
  have vv: "v * v = sigma\<^sup>2 * T" using assms by (simp add: v_def power2_eq_square)
  show ex: "K * exp (- r * T) * exp (ln (S0 / K) + r * T) = S0"
    using assms by (simp add: exp_add exp_minus field_simps)
  have "x / v + v / 2 = (x + v * v / 2) / v" using v by (simp add: field_simps)
  also have "\<dots> = (ln (S0 / K) + (r + sigma\<^sup>2 / 2) * T) / v"
    unfolding vv x_def by (simp add: algebra_simps)
  finally have d1: "(ln (S0 / K) + (r + sigma\<^sup>2 / 2) * T) / v = x / v + v / 2" by simp
  have "x / v - v / 2 = (x - v * v / 2) / v" using v by (simp add: field_simps)
  also have "\<dots> = (ln (S0 / K) + (r - sigma\<^sup>2 / 2) * T) / v"
    unfolding vv x_def by (simp add: algebra_simps)
  finally have d2: "(ln (S0 / K) + (r - sigma\<^sup>2 / 2) * T) / v = x / v - v / 2" by simp
  show "(ln (S0 / K) + (r + sigma\<^sup>2 / 2) * T) / (sigma * sqrt T)
     = (ln (S0 / K) + r * T) / (sigma * sqrt T) + sigma * sqrt T / 2"
    using d1 unfolding v_def x_def .
  have "K * exp (- r * T) * call_ratio v x
      = (K * exp (- r * T) * exp x) * norm_cdf (x / v + v / 2) - K * exp (- r * T) * norm_cdf (x / v - v / 2)"
    by (simp add: call_ratio_def algebra_simps)
  also have "\<dots> = bsm_formula S0 K T r sigma"
    unfolding d1[symmetric] d2[symmetric] unfolding x_def ex v_def bsm_formula_def ..
  finally show "bsm_formula S0 K T r sigma
     = K * exp (- r * T) * call_ratio (sigma * sqrt T) (ln (S0 / K) + r * T)"
    unfolding v_def x_def by simp
qed

lemma DERIV_bsm_formula_sigma:
  assumes "0 < S0" "0 < K" "0 < T" "0 < sigma"
  shows "((\<lambda>s. bsm_formula S0 K T r s) has_real_derivative
           S0 * norm_pdf ((ln (S0 / K) + (r + sigma\<^sup>2 / 2) * T) / (sigma * sqrt T)) * sqrt T)
         (at sigma)"
proof -
  define x where "x = ln (S0 / K) + r * T"
  define c where "c = K * exp (- r * T)"
  define v where "v = sigma * sqrt T"
  have v: "v \<noteq> 0" using assms by (simp add: v_def)
  have D: "((\<lambda>s. c * call_ratio (s * sqrt T) x) has_real_derivative
              c * (norm_pdf (x / v - v / 2) * (1 * sqrt T))) (at sigma)"
    unfolding v_def
    by (intro DERIV_cmult DERIV_chain2[where f = "\<lambda>v. call_ratio v x" and g = "\<lambda>s. s * sqrt T"]
          DERIV_call_ratio_v[unfolded v_def] v[unfolded v_def] DERIV_cmult_right DERIV_ident)
  have "c * (norm_pdf (x / v - v / 2) * (1 * sqrt T)) = (c * exp x) * norm_pdf (x / v + v / 2) * sqrt T"
    unfolding norm_pdf_shift[OF v, of x, symmetric] by simp
  also have "\<dots> = S0 * norm_pdf ((ln (S0 / K) + (r + sigma\<^sup>2 / 2) * T) / (sigma * sqrt T)) * sqrt T"
    using bsm_formula_call_ratio(2,3)[of S0 K T sigma r] assms
    by (simp add: c_def x_def v_def)
  finally have E: "c * (norm_pdf (x / v - v / 2) * (1 * sqrt T))
      = S0 * norm_pdf ((ln (S0 / K) + (r + sigma\<^sup>2 / 2) * T) / (sigma * sqrt T)) * sqrt T" .
  have ev: "eventually (\<lambda>s. bsm_formula S0 K T r s = c * call_ratio (s * sqrt T) x) (nhds sigma)"
  proof -
    have "eventually (\<lambda>s. s \<in> {0<..}) (nhds sigma)"
      using assms(4) by (intro eventually_nhds_in_open) auto
    then show ?thesis
    proof eventually_elim
      case (elim s)
      then have "s \<noteq> 0" by simp
      then show ?case
        using bsm_formula_call_ratio(1)[OF assms(1-3), of s r] by (simp add: c_def x_def)
    qed
  qed
  show ?thesis
    using D unfolding E
    by (rule DERIV_cong_ev[THEN iffD2, rotated -1]) (use ev in \<open>simp_all add: eq_commute\<close>)
qed

lemma bsm_example_values:
  "bsm_formula 1 1 1 (- 1 / 2) 1 = 1 / 2 - exp (1 / 2) * norm_cdf (- 1)"
  "vega_formula 1 1 1 (- 1 / 2) 1 = norm_pdf 0"
  "0 < 1 / 2 - exp (1 / 2) * norm_cdf (- 1)"
proof -
  show f: "bsm_formula 1 1 1 (- 1 / 2) 1 = 1 / 2 - exp (1 / 2) * norm_cdf (- 1)"
    by (simp add: bsm_formula_def norm_cdf_0)
  show "vega_formula 1 1 1 (- 1 / 2) 1 = norm_pdf 0"
    by (simp add: vega_formula_def)
  have "0 < bsm_formula 1 1 1 (- 1 / 2) 1"
    unfolding bsm_formula_def by (rule bsm_price_pos) simp_all
  then show "0 < 1 / 2 - exp (1 / 2) * norm_cdf (- 1)"
    by (simp only: f)
qed

subsection \<open>Two facts of exact arithmetic\<close>

text \<open>
  Over the real numbers the call price is positive for \<open>S0 > 0\<close>, \<open>K > 0\<close>,
  \<open>T > 0\<close>, \<open>sigma > 0\<close>. This is a fact about the formula, not about its evaluation
  in doubles: there \<open>r + 0.5 * sigma ** 2\<close> rounds to \<open>r\<close> for a tiny \<open>sigma\<close>,
  \<open>d1\<close> and \<open>d2\<close> coincide and the difference of the two products can be negative.
\<close>

lemma bsm_call_value_pos_exact:
  assumes "0 < S0" "0 < K" "0 < T" "0 < sigma"
  shows "bsm_call_value ks S0 K T r sigma = Inr (bsm_formula S0 K T r sigma)"
    and "0 < bsm_formula S0 K T r sigma"
proof -
  have s: "sigma \<noteq> 0" using assms by simp
  show "bsm_call_value ks S0 K T r sigma = Inr (bsm_formula S0 K T r sigma)"
    by (rule bsm_call_value_formula[OF assms(1-3) s])
  show "0 < bsm_formula S0 K T r sigma"
    unfolding bsm_formula_def by (rule bsm_price_pos[OF assms])
qed

text \<open>
  Over the real numbers the normal distribution function is positive, so the Vega of the
  source is not zero and a market price equal to the price at \<open>sigma_est\<close> leaves
  \<open>sigma_est\<close> unchanged. In doubles \<open>cdf(d1)\<close> underflows to \<open>0.0\<close> for
  \<open>d1\<close> below about \<open>-38.5\<close>, and the update is \<open>0.0 / 0.0\<close>.
\<close>

lemma imp_vol_body_fixed:
  assumes "0 < S0" "0 < K" "0 < T" "0 < sigma_est"
    and "bsm_formula S0 K T r sigma_est = C0"
  shows "imp_vol_body ks S0 K T r C0 sigma_est = Inr sigma_est"
proof -
  have s: "sigma_est \<noteq> 0" using assms by simp
  have "S0 * norm_cdf ((ln (S0 / K) + (r + sigma_est\<^sup>2 / 2) * T) / (sigma_est * sqrt T)) * sqrt T \<noteq> 0"
    using assms norm_cdf_pos[of "(ln (S0 / K) + (r + sigma_est\<^sup>2 / 2) * T) / (sigma_est * sqrt T)"]
    by simp
  then show ?thesis
    using assms(5) bsm_vega_value[OF assms(1-3) s, of ks r]
      bsm_call_value_formula[OF assms(1-3) s, of ks r]
    by (simp add: imp_vol_body_def np_div_def)
qed

lemma imp_vol_loop_fixed:
  assumes "\<And>ks. imp_vol_body ks S0 K T r C0 s = Inr s"
  shows "imp_vol_loop ks S0 K T r C0 xs s = Inr s"
  using assms by (induction xs arbitrary: ks) simp_all

lemma bsm_call_imp_vol_fixed_exact:
  assumes "0 < S0" "0 < K" "0 < T" "0 < sigma_est"
    and "bsm_formula S0 K T r sigma_est = C0"
  shows "bsm_call_imp_vol ks S0 K T r C0 sigma_est it = Inr sigma_est"
  unfolding bsm_call_imp_vol_def
  by (rule imp_vol_loop_fixed) (rule imp_vol_body_fixed[OF assms])

section \<open>The Vega function\<close>

text \<open>
  Claim C1 says that Vega returns \<open>S0 * phi(d1) * sqrt(T)\<close> with \<open>phi\<close> the standard
  normal density. That is the derivative of the price in \<open>sigma\<close>
  (\<open>DERIV_bsm_formula_sigma\<close>), which the docstring of \<open>bsm_vega\<close> promises. The
  source multiplies by the cumulative distribution function instead. At
  \<open>S0 = K = T = sigma = 1\<close>, \<open>r = -1/2\<close> the quantity \<open>d1\<close> is \<open>0\<close>: the code
  returns \<open>1/2\<close>, while the derivative of the price is \<open>1 / sqrt (2 * pi)\<close>, which
  is smaller.
\<close>

theorem bsm_vega_uses_cdf:
  "bsm_d1 ks 1 1 1 (- 1 / 2) 1 = Inr 0
   \<and> bsm_vega ks 1 1 1 (- 1 / 2) 1 = Inr (1 / 2)
   \<and> ((\<lambda>s. bsm_formula 1 1 1 (- 1 / 2) s) has_real_derivative 1 * norm_pdf 0 * sqrt 1) (at 1)
   \<and> 1 * norm_pdf 0 * sqrt 1 < 1 / 2"
proof -
  have "bsm_d1 ks 1 1 1 (- 1 / 2) 1 = Inr 0"
    by (simp add: bsm_d1_def div_of_nonzero py_log_def py_sqrt_def)
  moreover have "bsm_vega ks 1 1 1 (- 1 / 2) 1 = Inr (1 / 2)"
    by (simp add: bsm_vega_def bsm_d1_def div_of_nonzero py_log_def py_sqrt_def norm_cdf_0)
  moreover have "((\<lambda>s. bsm_formula 1 1 1 (- 1 / 2) s) has_real_derivative 1 * norm_pdf 0 * sqrt 1) (at 1)"
    using DERIV_bsm_formula_sigma[of 1 1 1 1 "- 1 / 2"] by simp
  moreover have "1 * norm_pdf 0 * sqrt 1 < 1 / 2"
    using norm_pdf_0_less_half by simp
  ultimately show ?thesis by blast
qed

section \<open>The implied-volatility solver\<close>

text \<open>
  The loop has no early exit and no residual check: \<open>N\<close> iterations are \<open>N\<close>
  executions of its body, a raise apart.
\<close>

lemma bsm_call_imp_vol_seq:
  "0 \<le> it \<Longrightarrow>
     bsm_call_imp_vol ks S0 K T r C0 sigma_est it = imp_vol_seq ks S0 K T r C0 sigma_est (nat it)"
  using imp_vol_loop_seq[of ks S0 K T r C0 "nat it" sigma_est]
  by (simp add: bsm_call_imp_vol_def)

text \<open>
  Claim C3 says that the solver performs exactly \<open>N\<close> Newton-Raphson updates
  \<open>sigma_{n+1} = sigma_n - (Pricer(sigma_n) - C*) / Vega(sigma_n)\<close> and returns the
  value after the last one. The number of updates is right, the update is not: the
  source divides by its \<open>bsm_vega\<close>, which is \<open>S0 * cdf(d1) * sqrt(T)\<close>, not the
  Vega \<open>S0 * phi(d1) * sqrt(T)\<close>. With \<open>S0 = K = T = 1\<close>, \<open>r = -1/2\<close>, market
  price \<open>0\<close>, initial guess \<open>1\<close> and one iteration, the price at the guess is
  \<open>p = 1/2 - exp (1/2) * cdf(-1)\<close> and \<open>d1 = 0\<close>: the source returns
  \<open>1 - p / (1/2)\<close>, the Newton-Raphson update is \<open>1 - p / phi(0)\<close>.
\<close>

theorem bsm_call_imp_vol_not_newton:
  "bsm_call_imp_vol ks 1 1 1 (- 1 / 2) 0 1 1
     = Inr (1 - (1 / 2 - exp (1 / 2) * norm_cdf (- 1) - 0) / (1 / 2))
   \<and> newton_seq 1 1 1 (- 1 / 2) 0 1 (Suc 0)
     = 1 - (1 / 2 - exp (1 / 2) * norm_cdf (- 1) - 0) / norm_pdf 0
   \<and> 1 - (1 / 2 - exp (1 / 2) * norm_cdf (- 1) - 0) / (1 / 2)
     \<noteq> 1 - (1 / 2 - exp (1 / 2) * norm_cdf (- 1) - 0) / norm_pdf 0"
proof -
  define p where "p = 1 / 2 - exp (1 / 2) * norm_cdf (- 1)"
  have p: "0 < p" unfolding p_def by (rule bsm_example_values(3))
  have a: "bsm_call_imp_vol ks 1 1 1 (- 1 / 2) 0 1 1 = Inr (1 - (p - 0) / (1 / 2))"
    unfolding p_def
    by (simp add: bsm_call_imp_vol_def py_range_def imp_vol_body_def bsm_call_value_def
        bsm_vega_def bsm_d1_def bsm_d2_def div_of_nonzero np_div_def py_log_def py_sqrt_def
        norm_cdf_0)
  have b: "newton_seq 1 1 1 (- 1 / 2) 0 1 (Suc 0) = 1 - (p - 0) / norm_pdf 0"
    unfolding p_def by (simp only: newton_seq.simps bsm_example_values(1,2))
  have "p / (1 / 2) < p / norm_pdf 0"
    using p norm_pdf_0_less_half norm_pdf_pos[of 0] by (intro divide_strict_left_mono) simp_all
  then have c: "1 - (p - 0) / (1 / 2) \<noteq> 1 - (p - 0) / norm_pdf 0"
    by simp
  show ?thesis using a b c unfolding p_def by blast
qed

section \<open>Failures of the Pricer\<close>




section \<open>The solver on a non-positive initial guess\<close>




section \<open>The two formulas of d2\<close>

text \<open>
  Claim C6: for \<open>S0 > 0\<close>, \<open>K > 0\<close>, \<open>T > 0\<close>, \<open>sigma > 0\<close> the quantity \<open>d2\<close> that the
  Pricer computes directly, \<open>(ln (S0/K) + (r - sigma\<^sup>2/2) * T) / (sigma * sqrt T)\<close>, equals
  \<open>d1 - sigma * sqrt T\<close> with
  \<open>d1 = (ln (S0/K) + (r + sigma\<^sup>2/2) * T) / (sigma * sqrt T)\<close>.
\<close>

theorem bsm_d2_eq_d1_minus:
  assumes "0 < S0" "0 < K" "0 < T" "0 < sigma"
  shows "bsm_d1 ks S0 K T r sigma
           = Inr ((ln (S0 / K) + (r + sigma\<^sup>2 / 2) * T) / (sigma * sqrt T))
       \<and> bsm_d2 ks S0 K T r sigma
           = Inr ((ln (S0 / K) + (r + sigma\<^sup>2 / 2) * T) / (sigma * sqrt T) - sigma * sqrt T)"
proof -
  have "(ln (S0 / K) + (r - sigma\<^sup>2 / 2) * T) / (sigma * sqrt T)
      = (ln (S0 / K) + (r + sigma\<^sup>2 / 2) * T) / (sigma * sqrt T) - sigma * sqrt T"
    using assms by (simp add: field_simps power2_eq_square)
  then show ?thesis
    using bsm_d1_d2_value[of S0 K T sigma ks r] assms by simp
qed

theorem bsm_d2_eq_d1_minus_witness:
  "(0::real) < 100 \<and> (0::real) < 105 \<and> (0::real) < 1 \<and> (0::real) < 1 / 5
   \<and> bsm_d1 all_builtin 100 105 1 (1 / 20) (1 / 5)
       = Inr ((ln (100 / 105) + (1 / 20 + (1 / 5)\<^sup>2 / 2) * 1) / (1 / 5 * sqrt 1))
   \<and> bsm_d2 all_builtin 100 105 1 (1 / 20) (1 / 5)
       = Inr ((ln (100 / 105) + (1 / 20 + (1 / 5)\<^sup>2 / 2) * 1) / (1 / 5 * sqrt 1) - 1 / 5 * sqrt 1)"
  using bsm_d2_eq_d1_minus[of 100 105 1 "1 / 5" all_builtin "1 / 20"] by simp

section \<open>The pure-Python simulator\<close>

lemma py_range_int: "py_range (int n) = map int [0..<n]"
proof (induction n)
  case 0 show ?case by (simp add: py_range_def)
next
  case (Suc n)
  have "py_range (int (Suc n)) = py_range (int n) @ [int n]"
    using py_range_Suc[of "int n"] by (simp add: add.commute)
  then show ?case using Suc by simp
qed

lemma path_loop_append:
  "path_loop S0 r sigma dt (ts @ us) path g =
     (case path_loop S0 r sigma dt ts path g of Inl e \<Rightarrow> Inl e
      | Inr (path', g') \<Rightarrow> path_loop S0 r sigma dt us path' g')"
  by (induction ts arbitrary: path g) (auto simp: gauss_def split: sum.splits prod.splits)

lemma path_loop_euler:
  assumes dt: "0 \<le> dt"
  shows "path_loop S0 r sigma dt (map int [0..<Suc n]) [] (z, p) =
     Inr (map (euler_level S0 r sigma dt (\<lambda>k. z (p + k))) [0..<Suc n], (z, p + n))"
proof (induction n)
  case 0 show ?case by simp
next
  case (Suc n)
  have "map int [0..<Suc (Suc n)] = map int [0..<Suc n] @ [int (Suc n)]" by simp
  then show ?case using Suc dt
    apply (simp only: path_loop_append)
    apply (simp add: gauss_def py_get_def py_sqrt_def nth_append del: upt_Suc map_append)
    apply simp
    done
qed

lemma path_loop_fails:
  assumes dt: "dt < 0"
  shows "path_loop S0 r sigma dt (map int [0..<Suc (Suc n)]) [] g = Inl ValueError"
proof -
  have "map int [0..<Suc (Suc n)] = [0, 1] @ map int [Suc (Suc 0)..<Suc (Suc n)]"
    by (simp add: upt_conv_Cons del: upt_Suc)
  then show ?thesis using dt
    by (simp add: path_loop_append gauss_def py_get_def py_sqrt_def split: prod.splits del: upt_Suc)
qed


lemma paths_loop_euler:
  assumes dt: "0 \<le> dt"
  shows "paths_loop S0 r sigma dt (int n) is S (z, p) =
     Inr (S @ map (\<lambda>i. map (euler_level S0 r sigma dt (\<lambda>k. z (p + i * n + k))) [0..<Suc n])
                 [0..<length is], (z, p + length is * n))"
proof (induction "is" arbitrary: S p)
  case Nil show ?case by simp
next
  case (Cons i "is")
  have r: "py_range (int n + 1) = map int [0..<Suc n]"
    using py_range_int[of "Suc n"] by (simp add: add.commute)
  define path where "path q = map (euler_level S0 r sigma dt (\<lambda>k. z (q + k))) [0..<Suc n]" for q
  have m: "map (\<lambda>i. path (p + i * n)) [0..<Suc (length is)]
       = path p # map (\<lambda>i. path (p + n + i * n)) [0..<length is]"
    by (simp add: map_upt_Suc add.assoc del: upt_Suc)
  have "paths_loop S0 r sigma dt (int n) (i # is) S (z, p)
      = paths_loop S0 r sigma dt (int n) is (S @ [path p]) (z, p + n)"
    unfolding path_def by (simp only: paths_loop.simps r path_loop_euler[OF dt]) simp
  also have "\<dots> = Inr ((S @ [path p]) @ map (\<lambda>i. path (p + n + i * n)) [0..<length is],
                     (z, p + n + length is * n))"
    unfolding path_def by (rule Cons)
  also have "\<dots> = Inr (S @ map (\<lambda>i. path (p + i * n)) [0..<length (i # is)],
                     (z, p + length (i # is) * n))"
    using m by (simp add: algebra_simps del: upt_Suc)
  finally show ?case unfolding path_def .
qed

lemma paths_loop_fails:
  assumes dt: "dt < 0"
  shows "paths_loop S0 r sigma dt (int (Suc n)) (i # is) S g = Inl ValueError"
proof -
  have r: "py_range (int (Suc n) + 1) = map int [0..<Suc (Suc n)]"
    using py_range_int[of "Suc (Suc n)"] by (simp add: add.commute)
  show ?thesis by (simp only: paths_loop.simps r path_loop_fails[OF dt]) simp
qed

lemma py_get_last: "xs \<noteq> [] \<Longrightarrow> py_get xs (- 1) = Inr (last xs)"
proof -
  assume "xs \<noteq> []"
  then have "nat (int (length xs) + - 1) = length xs - 1" "1 \<le> int (length xs)"
    by (cases xs; simp)+
  then show ?thesis using \<open>xs \<noteq> []\<close> by (simp add: py_get_def last_conv_nth)
qed

lemma payoffs_last:
  "\<forall>path \<in> set S. path \<noteq> [] \<Longrightarrow> payoffs K S = Inr (map (\<lambda>path. max (last path - K) 0) S)"
  by (induction S) (auto simp: py_get_last)

lemma last_euler_path:
  "last (map (euler_level S0 r sigma dt zs) [0..<Suc n]) = euler_level S0 r sigma dt zs n"
  by simp

lemma mcs_pure_python_paths_euler:
  assumes "1 \<le> M" "0 \<le> T"
  shows "mcs_pure_python_paths S0 T r sigma M I z =
     Inr (map (\<lambda>i. map (euler_level S0 r sigma (T / real_of_int M) (\<lambda>k. z (i * nat M + k)))
                      [0..<Suc (nat M)]) [0..<nat I])"
proof -
  have dt: "0 \<le> T / real_of_int M" using assms by simp
  have M: "M = int (nat M)" using assms by simp
  have len: "length (py_range I) = nat I" by (simp add: py_range_def)
  have "paths_loop S0 r sigma (T / real_of_int M) (int (nat M)) (py_range I) [] (z, 0) =
     Inr ([] @ map (\<lambda>i. map (euler_level S0 r sigma (T / real_of_int M) (\<lambda>k. z (0 + i * nat M + k)))
                      [0..<Suc (nat M)]) [0..<length (py_range I)], (z, 0 + length (py_range I) * nat M))"
    by (rule paths_loop_euler[OF dt])
  then show ?thesis using assms
    by (simp add: mcs_pure_python_paths_def py_div_def len del: upt_Suc)
qed

lemma mcs_pure_python_euler:
  assumes "1 \<le> M" "1 \<le> I" "0 \<le> T"
  shows "mcs_pure_python S0 K T r sigma M I z =
     Inr (exp (- r * T) *
          (\<Sum>i<nat I. max (euler_level S0 r sigma (T / real_of_int M) (\<lambda>k. z (i * nat M + k)) (nat M) - K) 0)
          / real_of_int I)"
proof -
  have I: "real_of_int I \<noteq> 0" using assms by simp
  show ?thesis
    using I
    by (simp add: mcs_pure_python_def mcs_pure_python_paths_euler[OF assms(1,3)] payoffs_last
        py_div_def comp_def sum_list_sum_nth atLeast0LessThan last_euler_path del: upt_Suc)
qed


lemma mcs_pure_python_neg_T:
  assumes "1 \<le> M" "1 \<le> I" "T < 0"
  shows "mcs_pure_python_paths S0 T r sigma M I z = Inl ValueError"
    and "mcs_pure_python S0 K T r sigma M I z = Inl ValueError"
proof -
  have dt: "T / real_of_int M < 0" using assms by (simp add: field_simps)
  have M: "M = int (Suc (nat (M - 1)))" using assms(1) by simp
  have I: "py_range I = 0 # [1..I - 1]"
    using assms(2) by (simp add: py_range_def upto_rec1)
  have l: "paths_loop S0 r sigma (T / real_of_int M) M (py_range I) [] (z, 0) = Inl ValueError"
    unfolding I by (subst M) (rule paths_loop_fails[OF dt])
  have Mz: "real_of_int M \<noteq> 0" using assms(1) by simp
  show p: "mcs_pure_python_paths S0 T r sigma M I z = Inl ValueError"
    using Mz by (simp add: mcs_pure_python_paths_def py_div_def l)
  show "mcs_pure_python S0 K T r sigma M I z = Inl ValueError"
    by (simp add: mcs_pure_python_def p)
qed

lemma euler_level_pos: "0 < S0 \<Longrightarrow> 0 < euler_level S0 r sigma dt zs t"
  by (induction t) simp_all

lemma mcs_pure_python_paths_cases:
  assumes "1 \<le> M" "1 \<le> I"
  shows "mcs_pure_python_paths S0 T r sigma M I z =
           (if T < 0 then Inl ValueError
            else Inr (map (\<lambda>i. map (euler_level S0 r sigma (T / real_of_int M)
                                       (\<lambda>k. z (i * nat M + k)))
                                  [0..<Suc (nat M)]) [0..<nat I]))"
  using mcs_pure_python_neg_T(1)[OF assms] mcs_pure_python_paths_euler[OF assms(1)]
  by (cases "T < 0") simp_all

lemma mcs_pure_python_paths_example:
  "mcs_pure_python_paths 1 2 (1 / 2) 1 2 2 real = Inr [[1, 1, exp 1], [1, exp 2, exp 2 * exp 3]]"
  using mcs_pure_python_paths_cases[of 2 2 1 2 "1 / 2" 1 real]
  by (simp add: numeral_2_eq_2 upt_conv_Cons)

text \<open>
  Claim C8: for \<open>M \<ge> 1\<close> and \<open>I \<ge> 1\<close> and every sequence of draws, the pure-Python
  simulator builds each path by the log-space Euler step
  \<open>S_t = S_{t-dt} * exp ((r - sigma\<^sup>2/2) * dt + sigma * sqrt dt * z)\<close> with \<open>dt = T / M\<close>
  (path \<open>i\<close> takes the draws \<open>i * M, ..., i * M + M - 1\<close> of the generator), and returns
  \<open>exp (- r * T)\<close> times the average over the \<open>I\<close> paths of \<open>max (S_T - K) 0\<close>.
  For a negative \<open>T\<close> the square root of \<open>dt\<close> raises and nothing is returned.
\<close>

theorem mcs_pure_python_estimator:
  assumes "1 \<le> M" "1 \<le> I"
  shows "mcs_pure_python_paths S0 T r sigma M I z =
           (if T < 0 then Inl ValueError
            else Inr (map (\<lambda>i. map (euler_level S0 r sigma (T / real_of_int M)
                                       (\<lambda>k. z (i * nat M + k)))
                                  [0..<Suc (nat M)]) [0..<nat I]))
       \<and> mcs_pure_python S0 K T r sigma M I z =
           (if T < 0 then Inl ValueError
            else Inr (exp (- r * T) *
                 (\<Sum>i<nat I. max (euler_level S0 r sigma (T / real_of_int M)
                                      (\<lambda>k. z (i * nat M + k)) (nat M) - K) 0)
                 / real_of_int I))"
proof (cases "T < 0")
  case True
  then show ?thesis using mcs_pure_python_neg_T[OF assms True] by simp
next
  case False
  then have T: "0 \<le> T" by simp
  show ?thesis
    using False mcs_pure_python_paths_euler[OF assms(1) T] mcs_pure_python_euler[OF assms T]
    by simp
qed

theorem mcs_pure_python_estimator_witness:
  "(1::int) \<le> 2 \<and> (1::int) \<le> 2
   \<and> mcs_pure_python_paths 1 2 (1 / 2) 1 2 2 real
       = Inr [[1, 1, exp 1], [1, exp 2, exp 2 * exp 3]]
   \<and> mcs_pure_python 1 1 2 (1 / 2) 1 2 2 real
       = Inr (exp (- 1) * (max (exp 1 - 1) 0 + max (exp 2 * exp 3 - 1) 0) / 2)"
  using mcs_pure_python_estimator[of 2 2 1 2 "1 / 2" 1 real 1]
  by (simp add: numeral_2_eq_2 lessThan_Suc upt_conv_Cons)

text \<open>
  The structure of the paths: each path the pure-Python simulator generates is a
  sequence of exactly \<open>M + 1\<close> index levels and its first element is \<open>S0\<close>; with
  \<open>M \<ge> 1\<close> time steps and \<open>T \<ge> 0\<close> the simulator does generate its \<open>I\<close> paths.
  Over the real numbers every level of a path that starts at \<open>S0 > 0\<close> is positive,
  each step multiplying by a positive factor. That last part is a fact of exact
  arithmetic: in doubles the factor \<open>exp(...)\<close> underflows to \<open>0.0\<close> for an
  argument below about \<open>-745\<close> and the path then holds a zero level.
\<close>

lemma mcs_pure_python_path_structure:
  assumes "0 < S0" "1 \<le> M"
  shows "(0 \<le> T \<longrightarrow> (\<exists>S. mcs_pure_python_paths S0 T r sigma M I z = Inr S \<and> length S = nat I))
    \<and> (\<forall>S path. mcs_pure_python_paths S0 T r sigma M I z = Inr S \<longrightarrow> path \<in> set S \<longrightarrow>
          int (length path) = M + 1 \<and> path ! 0 = S0 \<and> (\<forall>x \<in> set path. 0 < x))"
proof (intro conjI allI impI)
  assume "0 \<le> T"
  then show "\<exists>S. mcs_pure_python_paths S0 T r sigma M I z = Inr S \<and> length S = nat I"
    using mcs_pure_python_paths_euler[OF assms(2)] by simp
next
  fix S path
  assume S: "mcs_pure_python_paths S0 T r sigma M I z = Inr S" and p: "path \<in> set S"
  have "S = map (\<lambda>i. map (euler_level S0 r sigma (T / real_of_int M) (\<lambda>k. z (i * nat M + k)))
                       [0..<Suc (nat M)]) [0..<nat I]"
  proof (cases "1 \<le> I")
    case True
    then show ?thesis
      using mcs_pure_python_paths_cases[OF assms(2) True, of S0 T r sigma z] S
      by (auto split: if_splits)
  next
    case False
    then have "py_range I = []" by (simp add: py_range_def)
    then have "S = []"
      using S assms(2) by (simp add: mcs_pure_python_paths_def py_div_def)
    then show ?thesis using False by simp
  qed
  then obtain i where path:
    "path = map (euler_level S0 r sigma (T / real_of_int M) (\<lambda>k. z (i * nat M + k))) [0..<Suc (nat M)]"
    using p by auto
  show "int (length path) = M + 1" using assms(2) by (simp add: path)
  show "path ! 0 = S0" unfolding path by (simp add: nth_map_upt del: upt_Suc)
  show "\<forall>x \<in> set path. 0 < x" unfolding path using euler_level_pos[OF assms(1)] by auto
qed

section \<open>The three simulators compared\<close>

lemma map2_map_upt:
  "map2 f (map g [0..<n]) (map h [0..<n]) = map (\<lambda>i. f (g i) (h i)) [0..<n]"
  by (simp add: zip_map_map zip_same_conv_map comp_def)

lemma euler_row_Suc:
  assumes "0 \<le> dt"
  shows "map2 (\<lambda>s zi. s * exp ((r - 0.5 * sigma\<^sup>2) * dt + sigma * sqrt dt * zi))
           (euler_row S0 r sigma dt z I j) (map (\<lambda>k. z (j * I + k)) [0..<I])
         = euler_row S0 r sigma dt z I (Suc j)"
  unfolding euler_row_def map2_map_upt by simp

lemma py_range2_int: "py_range2 (int (Suc j)) (int (Suc n)) = map int [Suc j..<Suc n]"
proof (induction n)
  case 0
  show ?case by (simp add: py_range2_def)
next
  case (Suc n)
  show ?case
  proof (cases "j \<le> n")
    case True
    then have "py_range2 (int (Suc j)) (int (Suc (Suc n))) = py_range2 (int (Suc j)) (int (Suc n)) @ [int (Suc n)]"
      by (simp add: py_range2_def upto_rec2)
    then show ?thesis using Suc True by simp
  next
    case False
    then show ?thesis by (simp add: py_range2_def)
  qed
qed

lemma vector_loop_step:
  assumes dt: "0 \<le> dt" and len: "length S = Suc n" and j: "j < n"
    and row: "S ! j = euler_row S0 r sigma dt z I j"
  shows "vector_loop r sigma dt I (int (Suc j) # ts) S (z, j * I)
       = vector_loop r sigma dt I ts (S[Suc j := euler_row S0 r sigma dt z I (Suc j)]) (z, Suc j * I)"
proof -
  have n: "nat (1 + int j) = Suc j" "nat (int j + 1) = Suc j" by simp_all
  show ?thesis
    using assms euler_row_Suc[OF dt, of r sigma S0 z I j]
    by (simp add: standard_normal_def py_get_def py_set_def py_sqrt_def add.commute n)
qed

lemma vector_loop_rows:
  assumes dt: "0 \<le> dt"
  shows "length S = Suc n \<Longrightarrow> j \<le> n \<Longrightarrow> S ! j = euler_row S0 r sigma dt z I j \<Longrightarrow>
     \<exists>S'. vector_loop r sigma dt I (map int [Suc j..<Suc n]) S (z, j * I) = Inr (S', (z, n * I))
          \<and> length S' = Suc n \<and> S' ! n = euler_row S0 r sigma dt z I n"
proof (induction "n - j" arbitrary: j S)
  case 0
  then have "j = n" by simp
  then show ?case using 0 by simp
next
  case (Suc d)
  then have j: "j < n" by simp
  have l: "[Suc j..<Suc n] = Suc j # [Suc (Suc j)..<Suc n]"
    using j by (simp add: upt_conv_Cons del: upt_Suc)
  let ?S = "S[Suc j := euler_row S0 r sigma dt z I (Suc j)]"
  have "\<exists>S'. vector_loop r sigma dt I (map int [Suc (Suc j)..<Suc n]) ?S (z, Suc j * I) = Inr (S', (z, n * I))
          \<and> length S' = Suc n \<and> S' ! n = euler_row S0 r sigma dt z I n"
    using Suc.hyps(2) Suc.prems j by (intro Suc.hyps(1)) auto
  then show ?case
    unfolding l using vector_loop_step[OF dt Suc.prems(1) j Suc.prems(3)]
    by (simp del: upt_Suc vector_loop.simps)
qed

lemma euler_row_0: "euler_row S0 r sigma dt z I 0 = replicate I S0"
  by (simp add: euler_row_def map_replicate_const)

lemma mcs_vector_numpy_euler:
  assumes "1 \<le> M" "1 \<le> I" "0 \<le> T"
  shows "mcs_vector_numpy S0 K T r sigma M I z =
     Inr (exp (- r * T) *
          (\<Sum>i<nat I. max (euler_level S0 r sigma (T / real_of_int M) (\<lambda>k. z (k * nat I + i)) (nat M) - K) 0)
          / real_of_int I)"
proof -
  define n where "n = nat M"
  define dt where "dt = T / real_of_int M"
  have dt: "0 \<le> dt" using assms by (simp add: dt_def)
  have M: "M = int n" "M + 1 = int (Suc n)" "n \<noteq> 0" using assms by (simp_all add: n_def)
  define S1 where "S1 = (replicate (Suc n) (replicate (nat I) (0::real)))[0 := replicate (nat I) S0]"
  have s1: "py_set (replicate (nat (M + 1)) (replicate (nat I) 0)) 0 (replicate (nat I) S0) = Inr S1"
    by (simp only: M(2) nat_int) (simp add: py_set_def S1_def)
  have r: "py_range2 1 (M + 1) = map int [Suc 0..<Suc n]"
  proof -
    have "py_range2 1 (M + 1) = py_range2 (int (Suc 0)) (int (Suc n))"
      by (simp only: M(2)) simp
    then show ?thesis by (simp only: py_range2_int)
  qed
  obtain S' where S': "vector_loop r sigma dt (nat I) (map int [Suc 0..<Suc n]) S1 (z, 0 * nat I)
       = Inr (S', (z, n * nat I))" "length S' = Suc n" "S' ! n = euler_row S0 r sigma dt z (nat I) n"
    using vector_loop_rows[OF dt, of S1 n 0 S0 r sigma z "nat I"]
    by (auto simp: S1_def euler_row_0)
  have "S' \<noteq> []" using S'(2) by auto
  then have g: "py_get S' (- 1) = Inr (euler_row S0 r sigma dt z (nat I) n)"
    using py_get_last[of S'] S'(2,3) by (simp add: last_conv_nth)
  have I: "I \<noteq> 0" "real_of_int I \<noteq> 0" using assms by simp_all
  have "mcs_vector_numpy S0 K T r sigma M I z = np_estimator K T r I (euler_row S0 r sigma dt z (nat I) n)"
    using assms S'(1) g
    by (simp add: mcs_vector_numpy_def py_div_def s1 r dt_def[symmetric] del: upt_Suc)
  also have "\<dots> = Inr (exp (- r * T) *
          (\<Sum>i<nat I. max (euler_level S0 r sigma dt (\<lambda>k. z (k * nat I + i)) n - K) 0)
          / real_of_int I)"
    using I by (simp add: np_estimator_def euler_row_def comp_def sum_list_sum_nth atLeast0LessThan)
  finally show ?thesis unfolding dt_def n_def .
qed

lemma standard_normal2_rows:
  "standard_normal2 m n (z, p) =
     (map (\<lambda>t. map (\<lambda>k. z (p + t * n + k)) [0..<n]) [0..<m], (z, p + m * n))"
proof (induction m arbitrary: p)
  case 0
  show ?case by simp
next
  case (Suc m)
  have "map (\<lambda>t. map (\<lambda>k. z (p + t * n + k)) [0..<n]) [0..<Suc m]
      = map (\<lambda>k. z (p + k)) [0..<n] # map (\<lambda>t. map (\<lambda>k. z (p + n + t * n + k)) [0..<n]) [0..<m]"
    by (simp add: map_upt_Suc add.assoc del: upt_Suc)
  then show ?case
    by (simp add: Suc standard_normal_def add.assoc del: upt_Suc)
qed

lemma cumsum_axis0_euler:
  assumes dt: "0 \<le> dt"
  shows "(\<And>i. i < n \<Longrightarrow> S0 * exp (a i) = euler_level S0 r sigma dt (\<lambda>k. z (k * n + i)) j) \<Longrightarrow>
     map (map (\<lambda>c. S0 * exp c))
       (cumsum_axis0 (map a [0..<n])
          (map (\<lambda>t. map (\<lambda>i. (r - 0.5 * sigma\<^sup>2) * dt + sigma * sqrt dt * z (t * n + i)) [0..<n]) [j..<m]))
     = map (\<lambda>t. euler_row S0 r sigma dt z n (Suc t)) [j..<m]"
proof (induction "m - j" arbitrary: j a)
  case 0
  then show ?case by simp
next
  case (Suc d)
  then have j: "j < m" by simp
  have l: "[j..<m] = j # [Suc j..<m]" using j by (simp add: upt_conv_Cons)
  define a' where "a' i = a i + ((r - 0.5 * sigma\<^sup>2) * dt + sigma * sqrt dt * z (j * n + i))" for i
  have step: "map2 (+) (map a [0..<n])
       (map (\<lambda>i. (r - 0.5 * sigma\<^sup>2) * dt + sigma * sqrt dt * z (j * n + i)) [0..<n]) = map a' [0..<n]"
    unfolding map2_map_upt a'_def ..
  have lev: "S0 * exp (a' i) = euler_level S0 r sigma dt (\<lambda>k. z (k * n + i)) (Suc j)" if "i < n" for i
  proof -
    have "S0 * exp (a' i)
        = (S0 * exp (a i)) * exp ((r - 0.5 * sigma\<^sup>2) * dt + sigma * sqrt dt * z (j * n + i))"
      by (simp add: a'_def exp_add)
    also have "\<dots> = euler_level S0 r sigma dt (\<lambda>k. z (k * n + i)) j
                     * exp ((r - 0.5 * sigma\<^sup>2) * dt + sigma * sqrt dt * z (j * n + i))"
      by (simp only: Suc.prems[OF that])
    also have "\<dots> = euler_level S0 r sigma dt (\<lambda>k. z (k * n + i)) (Suc j)"
      by simp
    finally show ?thesis .
  qed
  have first: "map (\<lambda>c. S0 * exp c) (map a' [0..<n]) = euler_row S0 r sigma dt z n (Suc j)"
    unfolding euler_row_def using lev by (simp del: euler_level.simps)
  have rest: "map (map (\<lambda>c. S0 * exp c))
       (cumsum_axis0 (map a' [0..<n])
          (map (\<lambda>t. map (\<lambda>i. (r - 0.5 * sigma\<^sup>2) * dt + sigma * sqrt dt * z (t * n + i)) [0..<n]) [Suc j..<m]))
     = map (\<lambda>t. euler_row S0 r sigma dt z n (Suc t)) [Suc j..<m]"
    using Suc.hyps(2) lev by (intro Suc.hyps(1)) auto
  show ?case
    unfolding l by (simp only: list.map cumsum_axis0.simps step first rest)
qed

lemma mcs_full_vector_numpy_euler:
  assumes "1 \<le> M" "1 \<le> I" "0 \<le> T"
  shows "mcs_full_vector_numpy S0 K T r sigma M I z =
     Inr (exp (- r * T) *
          (\<Sum>i<nat I. max (euler_level S0 r sigma (T / real_of_int M) (\<lambda>k. z (k * nat I + i))
                               (Suc (nat M)) - K) 0)
          / real_of_int I)"
proof -
  define n where "n = nat M"
  define dt where "dt = T / real_of_int M"
  have dt: "0 \<le> dt" using assms by (simp add: dt_def)
  have M: "M + 1 = int (Suc n)" "n \<noteq> 0" using assms by (simp_all add: n_def)
  define rows where "rows = map (\<lambda>t. euler_row S0 r sigma dt z (nat I) (Suc t)) [0..<Suc n]"
  have cs: "map (map (\<lambda>c. S0 * exp c))
       (cumsum_axis0 (replicate (nat I) 0)
          (map (map (\<lambda>zi. (r - 0.5 * sigma\<^sup>2) * dt + sigma * sqrt dt * zi))
             (map (\<lambda>t. map (\<lambda>k. z (0 + t * nat I + k)) [0..<nat I]) [0..<Suc n]))) = rows"
  proof -
    have "replicate (nat I) (0::real) = map (\<lambda>i. 0) [0..<nat I]"
      by (simp add: map_replicate_const)
    then show ?thesis
      unfolding rows_def
      using cumsum_axis0_euler[OF dt, of "nat I" S0 "\<lambda>i. 0" r sigma z 0 "Suc n"]
      by (simp add: comp_def del: upt_Suc)
  qed
  have len: "length rows = Suc n" by (simp add: rows_def)
  have ps: "py_set rows 0 (replicate (nat I) S0) = Inr (rows[0 := replicate (nat I) S0])"
    using len by (simp add: py_set_def)
  have "(rows[0 := replicate (nat I) S0]) \<noteq> []" using len by auto
  moreover have "last (rows[0 := replicate (nat I) S0]) = euler_row S0 r sigma dt z (nat I) (Suc n)"
    using len M(2) by (simp add: last_conv_nth rows_def nth_list_update del: upt_Suc)
  ultimately have g: "py_get (rows[0 := replicate (nat I) S0]) (- 1)
       = Inr (euler_row S0 r sigma dt z (nat I) (Suc n))"
    using py_get_last[of "rows[0 := replicate (nat I) S0]"] by simp
  have I: "I \<noteq> 0" "real_of_int I \<noteq> 0" using assms by simp_all
  have pd: "py_div T (real_of_int M) = Inr dt"
    using assms by (simp add: py_div_def dt_def)
  have psq: "py_sqrt dt = Inr (sqrt dt)"
    using dt by (simp add: py_sqrt_def)
  have cond: "(M + 1 < 0 \<or> I < 0) = False"
    using assms by simp
  have sn: "standard_normal2 (nat (M + 1)) (nat I) (z, 0)
      = (map (\<lambda>t. map (\<lambda>k. z (0 + t * nat I + k)) [0..<nat I]) [0..<Suc n], (z, 0 + Suc n * nat I))"
    by (simp only: M(1) nat_int standard_normal2_rows)
  have "mcs_full_vector_numpy S0 K T r sigma M I z
       = np_estimator K T r I (euler_row S0 r sigma dt z (nat I) (Suc n))"
    by (simp only: mcs_full_vector_numpy_def pd psq cond sn cs ps g sum.case prod.case if_False)
  also have "\<dots> = Inr (exp (- r * T) *
          (\<Sum>i<nat I. max (euler_level S0 r sigma dt (\<lambda>k. z (k * nat I + i)) (Suc n) - K) 0)
          / real_of_int I)"
    using I by (simp add: np_estimator_def euler_row_def comp_def sum_list_sum_nth atLeast0LessThan
        del: euler_level.simps)
  finally show ?thesis unfolding dt_def n_def .
qed

lemma euler_level_cong:
  "(\<And>k. k < t \<Longrightarrow> zs k = zs' k) \<Longrightarrow>
     euler_level S0 r sigma dt zs t = euler_level S0 r sigma dt zs' t"
  by (induction t) simp_all

lemma mcs_pure_eq_vector:
  assumes "1 \<le> M" "1 \<le> I" "0 \<le> T"
  shows "mcs_pure_python S0 K T r sigma M I (\<lambda>n. Z (n mod nat M) (n div nat M))
       = mcs_vector_numpy S0 K T r sigma M I (\<lambda>n. Z (n div nat I) (n mod nat I))"
proof -
  have "euler_level S0 r sigma (T / real_of_int M) (\<lambda>k. Z ((i * nat M + k) mod nat M) ((i * nat M + k) div nat M)) (nat M)
      = euler_level S0 r sigma (T / real_of_int M) (\<lambda>k. Z ((k * nat I + i) div nat I) ((k * nat I + i) mod nat I)) (nat M)"
    if "i < nat I" for i
    using that by (intro euler_level_cong) simp
  then show ?thesis
    unfolding mcs_pure_python_euler[OF assms] mcs_vector_numpy_euler[OF assms]
    by simp
qed

text \<open>
  Claim C2 says that the three scripts compute the same function of the parameters and
  of the draws assigned to the path/step positions. The first two do
  (\<open>mcs_pure_eq_vector\<close>). The third one draws \<open>M + 1\<close> rows of random numbers and
  takes the cumulative sum of \<open>M + 1\<close> increments; overwriting row \<open>0\<close> of the result
  with \<open>S0\<close> afterwards does not remove the first increment from the rows below it, so
  its terminal levels have made \<open>M + 1\<close> steps, not \<open>M\<close>
  (\<open>mcs_full_vector_numpy_euler\<close>). With one path, one step,
  \<open>S0 = K = T = sigma = 1\<close>, \<open>r = 1/2\<close> and every draw equal to \<open>1\<close>, the terminal
  level is \<open>exp 1\<close> in the first two scripts and \<open>exp 2\<close> in the third, and the
  estimates differ.
\<close>

theorem mcs_full_vector_numpy_differs:
  "mcs_pure_python 1 1 1 (1 / 2) 1 1 1 (\<lambda>n. 1) = Inr (exp (- 1 / 2) * (exp 1 - 1))
   \<and> mcs_vector_numpy 1 1 1 (1 / 2) 1 1 1 (\<lambda>n. 1) = Inr (exp (- 1 / 2) * (exp 1 - 1))
   \<and> mcs_full_vector_numpy 1 1 1 (1 / 2) 1 1 1 (\<lambda>n. 1) = Inr (exp (- 1 / 2) * (exp 2 - 1))
   \<and> exp (- 1 / 2) * (exp 1 - 1) \<noteq> (exp (- 1 / 2) * (exp 2 - 1) :: real)"
proof -
  have r2: "py_range 2 = [0, 1]" "py_range 1 = [0]" "py_range2 1 2 = [1]"
    by (simp_all add: py_range_def py_range2_def upto_rec1)
  have e: "max (exp 1 - 1) 0 = exp 1 - (1::real)" "max (exp 2 - 1) 0 = exp 2 - (1::real)"
    by (simp_all add: max_def)
  have a: "mcs_pure_python 1 1 1 (1 / 2) 1 1 1 (\<lambda>n. 1) = Inr (exp (- 1 / 2) * (exp 1 - 1))"
    by (simp add: mcs_pure_python_def mcs_pure_python_paths_def py_div_def r2 gauss_def
        py_get_def py_sqrt_def e)
  have b: "mcs_vector_numpy 1 1 1 (1 / 2) 1 1 1 (\<lambda>n. 1) = Inr (exp (- 1 / 2) * (exp 1 - 1))"
    by (simp add: mcs_vector_numpy_def py_div_def r2 standard_normal_def
        py_get_def py_set_def py_sqrt_def np_estimator_def e)
  have c: "mcs_full_vector_numpy 1 1 1 (1 / 2) 1 1 1 (\<lambda>n. 1) = Inr (exp (- 1 / 2) * (exp 2 - 1))"
    by (simp add: mcs_full_vector_numpy_def py_div_def numeral_2_eq_2 standard_normal_def
        py_get_def py_set_def py_sqrt_def np_estimator_def e)
  have d: "exp (- 1 / 2) * (exp 1 - 1) \<noteq> (exp (- 1 / 2) * (exp 2 - 1) :: real)"
    by simp
  show ?thesis using a b c d by blast
qed

end
